theory Spec2Isabelle
  imports Main
begin

section \<open>Strings, characters and errors\<close>

text \<open>
  The program under study is \<^verbatim>\<open>llm_proofreader.py\<close>. A Python \<^verbatim>\<open>str\<close> is modelled as a
  \<^typ>\<open>string\<close>; a \<^typ>\<open>char\<close> stands for the code point of the same number, so the model
  covers the strings whose code points are below 256. Exceptions are values of the type
  \<open>error\<close>, and a function that can raise returns \<open>error + 'a\<close>.
\<close>

datatype error = IndexError | KeyError | AssertionError | RuntimeError | OtherError

definition newline :: char where
  "newline = CHR 0x0A"

definition tab :: char where
  "tab = CHR 0x09"

definition backslash :: char where
  "backslash = CHR 0x5C"

definition dquote :: char where
  "dquote = CHR 0x22"

text \<open>\<^verbatim>\<open>s.startswith(p)\<close>.\<close>

definition startswith :: "string \<Rightarrow> string \<Rightarrow> bool" where
  "startswith s p = (take (length p) s = p)"

text \<open>The two keyword prefixes \<^verbatim>\<open>'msgid "'\<close> and \<^verbatim>\<open>'msgstr "'\<close>.\<close>

definition msgid_kw :: string where
  "msgid_kw = ''msgid '' @ [dquote]"

definition msgstr_kw :: string where
  "msgstr_kw = ''msgstr '' @ [dquote]"

section \<open>Unescaping\<close>

text \<open>
  \<^verbatim>\<open>_PO_ESCAPES\<close> is a dictionary from the four two-character escape sequences to their
  replacement.
\<close>

definition PO_ESCAPES :: "string \<rightharpoonup> string" where
  "PO_ESCAPES =
     [[backslash, backslash] \<mapsto> [backslash],
      [backslash, CHR ''n''] \<mapsto> [newline],
      [backslash, CHR ''t''] \<mapsto> [tab],
      [backslash, dquote] \<mapsto> [dquote]]"

text \<open>
  \<^verbatim>\<open>_PO_ESCAPE_RE\<close> is the pattern \<^verbatim>\<open>\\[\\nt"]\<close>: a backslash followed by one of backslash,
  \<^verbatim>\<open>n\<close>, \<^verbatim>\<open>t\<close>, double quote. \<open>PO_ESCAPE_RE s\<close> is the match of the pattern at the start
  of \<open>s\<close>: the matched text and what follows it.
\<close>

fun PO_ESCAPE_RE :: "string \<Rightarrow> (string \<times> string) option" where
  "PO_ESCAPE_RE (a # b # rest) =
     (if a = backslash \<and> (b = backslash \<or> b = CHR ''n'' \<or> b = CHR ''t'' \<or> b = dquote)
      then Some ([a, b], rest) else None)"
| "PO_ESCAPE_RE s = None"

lemma PO_ESCAPE_RE_shorter:
  "PO_ESCAPE_RE s = Some (m, rest) \<Longrightarrow> length rest < length s"
  by (cases s rule: PO_ESCAPE_RE.cases) (auto split: if_splits)

text \<open>
  \<^verbatim>\<open>_unescape_po(s)\<close> is \<^verbatim>\<open>_PO_ESCAPE_RE.sub(lambda m: _PO_ESCAPES[m.group()], s)\<close>: the
  string is scanned from the left; where the pattern matches, the match is replaced by its
  dictionary entry (a missing key raises \<^verbatim>\<open>KeyError\<close>) and the scan goes on after the
  match; elsewhere the character is copied.
\<close>

function unescape_po :: "string \<Rightarrow> error + string" where
  "unescape_po [] = Inr []"
| "unescape_po (c # cs) =
     (case PO_ESCAPE_RE (c # cs) of
        Some (m, rest) \<Rightarrow>
          (case PO_ESCAPES m of
             None \<Rightarrow> Inl KeyError
           | Some r \<Rightarrow>
               (case unescape_po rest of Inl e \<Rightarrow> Inl e | Inr out \<Rightarrow> Inr (r @ out)))
      | None \<Rightarrow>
          (case unescape_po cs of Inl e \<Rightarrow> Inl e | Inr out \<Rightarrow> Inr (c # out)))"
  by pat_completeness auto
termination
  by (relation "measure length") (auto dest: PO_ESCAPE_RE_shorter)

section \<open>Reading one PO string\<close>

text \<open>
  The pattern \<^verbatim>\<open>(.*)"\<close> matched at the start of \<open>s\<close>, with group 1 as the result: the dot
  matches every character but the newline and the star is greedy, so the group runs to the
  last double quote of the newline-free run that \<open>s\<close> starts with.
\<close>

definition dot_star_quote :: "string \<Rightarrow> string option" where
  "dot_star_quote s =
     (let run = takeWhile (\<lambda>c. c \<noteq> newline) s
      in if dquote \<in> set run
         then Some (butlast (rev (dropWhile (\<lambda>c. c \<noteq> dquote) (rev run))))
         else None)"

text \<open>
  \<^verbatim>\<open>re.search(r'"(.*)"', s)\<close>, group 1 of the leftmost match or \<open>None\<close>.
\<close>

fun re_search_quoted :: "string \<Rightarrow> string option" where
  "re_search_quoted [] = None"
| "re_search_quoted (c # cs) =
     (if c = dquote
      then (case dot_star_quote cs of Some g \<Rightarrow> Some g | None \<Rightarrow> re_search_quoted cs)
      else re_search_quoted cs)"

text \<open>
  \<^verbatim>\<open>re.match(r'^"(.*)"$', s)\<close>, group 1 or \<open>None\<close>. Without the multi-line flag, \<^verbatim>\<open>$\<close>
  matches at the end of the string and just before a newline that ends the string.
\<close>

definition re_match_continuation :: "string \<Rightarrow> string option" where
  "re_match_continuation s =
     (case s of
        [] \<Rightarrow> None
      | c # cs \<Rightarrow>
          if c \<noteq> dquote then None
          else (let body = (if cs \<noteq> [] \<and> last cs = newline then butlast cs else cs)
                in if body \<noteq> [] \<and> last body = dquote \<and> newline \<notin> set (butlast body)
                   then Some (butlast body) else None))"

text \<open>
  The loop of \<^verbatim>\<open>_extract_po_string_lines\<close> that collects continuation lines, with its
  variables \<open>i\<close> and \<open>parts\<close>.
\<close>

function collect_continuations :: "string list \<Rightarrow> nat \<Rightarrow> string list \<Rightarrow> string list \<times> nat" where
  "collect_continuations lines i parts =
     (if i < length lines
      then (case re_match_continuation (lines ! i) of
              Some g \<Rightarrow> collect_continuations lines (i + 1) (parts @ [g])
            | None \<Rightarrow> (parts, i))
      else (parts, i))"
  by pat_completeness auto
termination
  by (relation "measure (\<lambda>(lines, i, parts). length lines - i)") auto

declare collect_continuations.simps [simp del]

text \<open>
  \<^verbatim>\<open>_extract_po_string_lines(lines, start)\<close>. The index is a natural number, as every call
  in the program passes one; \<^verbatim>\<open>lines[start]\<close> raises \<^verbatim>\<open>IndexError\<close> beyond the end.
\<close>

definition extract_po_string_lines :: "string list \<Rightarrow> nat \<Rightarrow> error + (string \<times> nat)" where
  "extract_po_string_lines lines start =
     (if length lines \<le> start then Inl IndexError
      else (case re_search_quoted (lines ! start) of
              None \<Rightarrow> Inr ([], start + 1)
            | Some g \<Rightarrow>
                (case collect_continuations lines (start + 1) [g] of
                   (parts, i) \<Rightarrow>
                     (case unescape_po (concat parts) of
                        Inl e \<Rightarrow> Inl e
                      | Inr v \<Rightarrow> Inr (v, i)))))"

section \<open>Scanning the entries of one side\<close>

text \<open>
  The inner loop of \<^verbatim>\<open>_extract_pairs_from_lines\<close>: advance \<open>i\<close> to the next line that starts
  with one of the two keywords, or to the end.
\<close>

function skip_to_keyword :: "string list \<Rightarrow> nat \<Rightarrow> nat" where
  "skip_to_keyword lines i =
     (if i < length lines \<and> \<not> startswith (lines ! i) msgstr_kw
         \<and> \<not> startswith (lines ! i) msgid_kw
      then skip_to_keyword lines (i + 1) else i)"
  by pat_completeness auto
termination
  by (relation "measure (\<lambda>(lines, i). length lines - i)") auto

declare skip_to_keyword.simps [simp del]

text \<open>
  One round of the outer loop at an index \<open>i\<close> below the length: the new index and the new
  list of pairs.
\<close>

definition extract_pairs_body ::
  "string list \<Rightarrow> nat \<Rightarrow> (string \<times> string) list \<Rightarrow> error + (nat \<times> (string \<times> string) list)" where
  "extract_pairs_body lines i pairs =
     (if startswith (lines ! i) msgid_kw
      then (case extract_po_string_lines lines i of
              Inl e \<Rightarrow> Inl e
            | Inr (msgid, i1) \<Rightarrow>
                (case (if i1 < length lines \<and> startswith (lines ! i1) msgstr_kw
                       then extract_po_string_lines lines i1
                       else (let i2 = skip_to_keyword lines i1
                             in if i2 < length lines \<and> startswith (lines ! i2) msgstr_kw
                                then extract_po_string_lines lines i2
                                else Inr ([], i2)))
                 of Inl e \<Rightarrow> Inl e
                  | Inr (msgstr, i3) \<Rightarrow>
                      Inr (i3, if msgid \<noteq> [] then pairs @ [(msgid, msgstr)] else pairs)))
      else Inr (i + 1, pairs))"

lemma collect_continuations_index:
  "collect_continuations lines i parts = (ps, j) \<Longrightarrow> i \<le> j"
proof (induction lines i parts rule: collect_continuations.induct)
  case (1 lines i parts)
  show ?case
  proof (cases "i < length lines")
    case True
    show ?thesis
    proof (cases "re_match_continuation (lines ! i)")
      case None
      with True "1.prems" show ?thesis by (simp add: collect_continuations.simps [of lines i])
    next
      case (Some g)
      with True "1.prems" have "collect_continuations lines (i + 1) (parts @ [g]) = (ps, j)"
        by (simp add: collect_continuations.simps [of lines i])
      with "1.IH" [OF True Some] show ?thesis by simp
    qed
  next
    case False
    with "1.prems" show ?thesis by (simp add: collect_continuations.simps [of lines i])
  qed
qed

lemma extract_po_string_lines_index:
  "extract_po_string_lines lines start = Inr (v, j) \<Longrightarrow> start < j"
  by (auto simp: extract_po_string_lines_def
      split: if_splits option.splits prod.splits sum.splits
      dest: collect_continuations_index)

lemma skip_to_keyword_index: "i \<le> skip_to_keyword lines i"
proof (induction lines i rule: skip_to_keyword.induct)
  case (1 lines i)
  show ?case
  proof (cases "i < length lines \<and> \<not> startswith (lines ! i) msgstr_kw
         \<and> \<not> startswith (lines ! i) msgid_kw")
    case True
    with "1.IH" have "i + 1 \<le> skip_to_keyword lines (i + 1)" by simp
    moreover from True have "skip_to_keyword lines i = skip_to_keyword lines (i + 1)"
      by (subst skip_to_keyword.simps) simp
    ultimately show ?thesis by simp
  next
    case False
    then have "skip_to_keyword lines i = i"
      by (subst skip_to_keyword.simps) auto
    then show ?thesis by simp
  qed
qed

lemma extract_pairs_body_index:
  assumes "extract_pairs_body lines i pairs = Inr (j, pairs')"
  shows "i < j"
proof (cases "startswith (lines ! i) msgid_kw")
  case False
  with assms show ?thesis by (simp add: extract_pairs_body_def)
next
  case True
  with assms obtain msgid i1 where
    a: "extract_po_string_lines lines i = Inr (msgid, i1)"
    by (auto simp: extract_pairs_body_def split: sum.splits)
  then have i1: "i < i1" by (rule extract_po_string_lines_index)
  let ?second = "(if i1 < length lines \<and> startswith (lines ! i1) msgstr_kw
                       then extract_po_string_lines lines i1
                       else (let i2 = skip_to_keyword lines i1
                             in if i2 < length lines \<and> startswith (lines ! i2) msgstr_kw
                                then extract_po_string_lines lines i2
                                else Inr ([], i2)))"
  from assms True a obtain msgstr where b: "?second = Inr (msgstr, j)"
    by (auto simp: extract_pairs_body_def split: sum.splits)
  have "i1 \<le> j"
  proof (cases "i1 < length lines \<and> startswith (lines ! i1) msgstr_kw")
    case True
    with b have "extract_po_string_lines lines i1 = Inr (msgstr, j)" by simp
    then show ?thesis by (auto dest: extract_po_string_lines_index)
  next
    case False
    note nf = False
    show ?thesis
    proof (cases "skip_to_keyword lines i1 < length lines
        \<and> startswith (lines ! skip_to_keyword lines i1) msgstr_kw")
      case True
      with b nf have "extract_po_string_lines lines (skip_to_keyword lines i1) = Inr (msgstr, j)"
        by (simp add: Let_def)
      then have "skip_to_keyword lines i1 < j" by (rule extract_po_string_lines_index)
      with skip_to_keyword_index [of i1 lines] show ?thesis by simp
    next
      case False
      with b nf have "j = skip_to_keyword lines i1" by (auto simp: Let_def)
      with skip_to_keyword_index [of i1 lines] show ?thesis by simp
    qed
  qed
  with i1 show ?thesis by simp
qed

text \<open>
  The outer loop of \<^verbatim>\<open>_extract_pairs_from_lines\<close>, with its variables \<open>i\<close> and \<open>pairs\<close>.
\<close>

function extract_pairs_loop ::
  "string list \<Rightarrow> nat \<Rightarrow> (string \<times> string) list \<Rightarrow> error + (string \<times> string) list" where
  "extract_pairs_loop lines i pairs =
     (if i < length lines
      then (case extract_pairs_body lines i pairs of
              Inl e \<Rightarrow> Inl e
            | Inr (j, pairs') \<Rightarrow> extract_pairs_loop lines j pairs')
      else Inr pairs)"
  by pat_completeness auto
termination
  by (relation "measure (\<lambda>(lines, i, pairs). length lines - i)")
     (auto dest: extract_pairs_body_index)

declare extract_pairs_loop.simps [simp del]

definition extract_pairs_from_lines :: "string list \<Rightarrow> error + (string \<times> string) list" where
  "extract_pairs_from_lines lines = extract_pairs_loop lines 0 []"

section \<open>Changed translations of a diff\<close>

text \<open>
  \<^verbatim>\<open>parse_po_diff\<close> reads the diff through \<^verbatim>\<open>unidiff.PatchSet\<close>, a library outside the
  program. What the program reads of a parsed line is whether it is added, whether it is
  removed, and its text; of a hunk its lines in order; of a file its path and its hunks.
\<close>

record diff_line =
  is_added :: bool
  is_removed :: bool
  line_value :: string

type_synonym hunk = "diff_line list"

record patched_file =
  path :: string
  hunks :: "hunk list"

type_synonym change = "string \<times> string \<times> string"

text \<open>\<^verbatim>\<open>s.rstrip('\n')\<close>.\<close>

definition rstrip_newline :: "string \<Rightarrow> string" where
  "rstrip_newline s = rev (dropWhile (\<lambda>c. c = newline) (rev s))"

text \<open>
  \<^verbatim>\<open>s.strip()\<close> removes white space at both ends; below 256 the white-space code points are
  9 to 13, 28 to 32, 133 and 160.
\<close>

definition is_space :: "char \<Rightarrow> bool" where
  "is_space c =
     (let n = (of_char c :: nat)
      in (9 \<le> n \<and> n \<le> 13) \<or> (28 \<le> n \<and> n \<le> 32) \<or> n = 133 \<or> n = 160)"

definition strip :: "string \<Rightarrow> string" where
  "strip s = rev (dropWhile is_space (rev (dropWhile is_space s)))"

text \<open>
  The class \<^verbatim>\<open>\w\<close> of a \<^verbatim>\<open>str\<close> pattern: the alphanumeric code points and the underscore.
\<close>

definition is_word_char :: "char \<Rightarrow> bool" where
  "is_word_char c =
     (let n = (of_char c :: nat)
      in (48 \<le> n \<and> n \<le> 57) \<or> (65 \<le> n \<and> n \<le> 90) \<or> n = 95 \<or> (97 \<le> n \<and> n \<le> 122)
         \<or> n = 170 \<or> n = 178 \<or> n = 179 \<or> n = 181 \<or> n = 185 \<or> n = 186
         \<or> (188 \<le> n \<and> n \<le> 190) \<or> (192 \<le> n \<and> n \<le> 214) \<or> (216 \<le> n \<and> n \<le> 246)
         \<or> (248 \<le> n \<and> n \<le> 255))"

definition strip_prefix :: "string \<Rightarrow> string \<Rightarrow> string option" where
  "strip_prefix p s = (if startswith s p then Some (drop (length p) s) else None)"

text \<open>
  The pattern \<^verbatim>\<open>locale/([^/]+)/electrum\.po\b\<close> matched at the start of \<open>s\<close>, with group 1
  as the result. The group is the run of characters other than the slash that follows
  \<^verbatim>\<open>locale/\<close>, and it is not empty; \<^verbatim>\<open>\b\<close> after the final \<^verbatim>\<open>o\<close> holds at the end of
  the string and before a character outside \<^verbatim>\<open>\w\<close>.
\<close>

definition file_match_at :: "string \<Rightarrow> string option" where
  "file_match_at s =
     (case strip_prefix ''locale/'' s of
        None \<Rightarrow> None
      | Some r \<Rightarrow>
          (let seg = takeWhile (\<lambda>c. c \<noteq> CHR ''/'') r;
               r' = dropWhile (\<lambda>c. c \<noteq> CHR ''/'') r
           in if seg = [] then None
              else (case strip_prefix ''/electrum.po'' r' of
                      None \<Rightarrow> None
                    | Some t \<Rightarrow> if t = [] \<or> \<not> is_word_char (hd t) then Some seg else None)))"

text \<open>
  \<^verbatim>\<open>re.search(r'locale/([^/]+)/electrum\.po\b', file_path)\<close>: group 1 of the leftmost match,
  or \<open>None\<close>.
\<close>

fun file_match :: "string \<Rightarrow> string option" where
  "file_match [] = None"
| "file_match (c # cs) =
     (case file_match_at (c # cs) of Some g \<Rightarrow> Some g | None \<Rightarrow> file_match cs)"

text \<open>The loop over the lines of a hunk, which builds \<open>plus_lines\<close> and \<open>minus_lines\<close>.\<close>

fun hunk_sides :: "hunk \<Rightarrow> string list \<Rightarrow> string list \<Rightarrow> string list \<times> string list" where
  "hunk_sides [] plus_lines minus_lines = (plus_lines, minus_lines)"
| "hunk_sides (line # rest) plus_lines minus_lines =
     (let content = rstrip_newline (line_value line)
      in if is_added line then hunk_sides rest (plus_lines @ [content]) minus_lines
         else if is_removed line then hunk_sides rest plus_lines (minus_lines @ [content])
         else hunk_sides rest (plus_lines @ [content]) (minus_lines @ [content]))"

text \<open>The loop that fills the dictionary \<open>old_lookup\<close>.\<close>

fun build_old_lookup :: "(string \<times> string) list \<Rightarrow> (string \<rightharpoonup> string) \<Rightarrow> (string \<rightharpoonup> string)" where
  "build_old_lookup [] old_lookup = old_lookup"
| "build_old_lookup ((msgid, msgstr) # rest) old_lookup =
     build_old_lookup rest (old_lookup(msgid \<mapsto> msgstr))"

text \<open>\<^verbatim>\<open>old_lookup.get(msgid, "")\<close>.\<close>

definition get_or_empty :: "(string \<rightharpoonup> string) \<Rightarrow> string \<Rightarrow> string" where
  "get_or_empty old_lookup msgid = (case old_lookup msgid of None \<Rightarrow> [] | Some v \<Rightarrow> v)"

text \<open>The loop over \<open>new_pairs\<close>, which appends to \<open>results\<close>.\<close>

fun compare_pairs ::
  "string \<Rightarrow> (string \<rightharpoonup> string) \<Rightarrow> (string \<times> string) list \<Rightarrow> change list \<Rightarrow> change list" where
  "compare_pairs current_locale old_lookup [] results = results"
| "compare_pairs current_locale old_lookup ((msgid, msgstr) # rest) results =
     (if msgstr = [] then compare_pairs current_locale old_lookup rest results
      else (let old_msgstr = get_or_empty old_lookup msgid
            in if msgstr \<noteq> old_msgstr
               then compare_pairs current_locale old_lookup rest
                      (results @ [(current_locale, msgid, msgstr)])
               else compare_pairs current_locale old_lookup rest results))"

text \<open>The loop over the hunks of one file.\<close>

fun hunk_loop :: "string \<Rightarrow> hunk list \<Rightarrow> change list \<Rightarrow> error + change list" where
  "hunk_loop current_locale [] results = Inr results"
| "hunk_loop current_locale (h # rest) results =
     (case hunk_sides h [] [] of
        (plus_lines, minus_lines) \<Rightarrow>
          (case extract_pairs_from_lines plus_lines of
             Inl e \<Rightarrow> Inl e
           | Inr new_pairs \<Rightarrow>
               (case extract_pairs_from_lines minus_lines of
                  Inl e \<Rightarrow> Inl e
                | Inr old_pairs \<Rightarrow>
                    hunk_loop current_locale rest
                      (compare_pairs current_locale (build_old_lookup old_pairs Map.empty)
                         new_pairs results))))"

text \<open>The loop over the files of the patch set.\<close>

fun file_loop :: "patched_file list \<Rightarrow> change list \<Rightarrow> error + change list" where
  "file_loop [] results = Inr results"
| "file_loop (patched_file # rest) results =
     (case file_match (path patched_file) of
        None \<Rightarrow> file_loop rest results
      | Some current_locale \<Rightarrow>
          (case hunk_loop current_locale (hunks patched_file) results of
             Inl e \<Rightarrow> Inl e
           | Inr results' \<Rightarrow> file_loop rest results'))"

text \<open>
  \<^verbatim>\<open>parse_po_diff(diff_text)\<close>. The parser of the library is the parameter \<open>PatchSet\<close>; it
  returns the files of the diff or raises.
\<close>

definition parse_po_diff ::
  "(string \<Rightarrow> error + patched_file list) \<Rightarrow> string \<Rightarrow> error + change list" where
  "parse_po_diff PatchSet diff_text =
     (if strip diff_text = [] then Inr []
      else (case PatchSet diff_text of
              Inl e \<Rightarrow> Inl e
            | Inr patch_set \<Rightarrow> file_loop patch_set []))"

section \<open>The scanner never raises\<close>

lemma PO_ESCAPE_RE_key:
  "PO_ESCAPE_RE s = Some (m, rest) \<Longrightarrow> \<exists>r. PO_ESCAPES m = Some r"
  by (cases s rule: PO_ESCAPE_RE.cases) (auto simp: PO_ESCAPES_def split: if_splits)

lemma unescape_po_total: "\<exists>out. unescape_po s = Inr out"
proof (induction s rule: unescape_po.induct)
  case 1
  show ?case by simp
next
  case (2 c cs)
  show ?case
  proof (cases "PO_ESCAPE_RE (c # cs)")
    case None
    with "2.IH" obtain out where "unescape_po cs = Inr out" by blast
    with None show ?thesis by simp
  next
    case (Some a)
    obtain m rest where a: "a = (m, rest)" by (cases a)
    from Some a obtain r where r: "PO_ESCAPES m = Some r"
      by (auto dest: PO_ESCAPE_RE_key)
    from "2.IH" Some a r obtain out where "unescape_po rest = Inr out" by blast
    with Some a r show ?thesis by simp
  qed
qed

lemma extract_po_string_lines_total:
  "start < length lines \<Longrightarrow> \<exists>v j. extract_po_string_lines lines start = Inr (v, j)"
proof -
  assume s: "start < length lines"
  show ?thesis
  proof (cases "re_search_quoted (lines ! start)")
    case None
    with s show ?thesis by (simp add: extract_po_string_lines_def)
  next
    case (Some g)
    obtain parts i where c: "collect_continuations lines (start + 1) [g] = (parts, i)"
      by (cases "collect_continuations lines (start + 1) [g]")
    obtain v where "unescape_po (concat parts) = Inr v"
      using unescape_po_total by blast
    with s Some c show ?thesis by (simp add: extract_po_string_lines_def)
  qed
qed

lemma extract_pairs_body_total:
  assumes "i < length lines"
  shows "\<exists>j pairs'. extract_pairs_body lines i pairs = Inr (j, pairs')"
proof (cases "startswith (lines ! i) msgid_kw")
  case False
  then show ?thesis by (simp add: extract_pairs_body_def)
next
  case True
  from assms obtain msgid i1 where a: "extract_po_string_lines lines i = Inr (msgid, i1)"
    using extract_po_string_lines_total by blast
  let ?second = "(if i1 < length lines \<and> startswith (lines ! i1) msgstr_kw
                       then extract_po_string_lines lines i1
                       else (let i2 = skip_to_keyword lines i1
                             in if i2 < length lines \<and> startswith (lines ! i2) msgstr_kw
                                then extract_po_string_lines lines i2
                                else Inr ([], i2)))"
  have "\<exists>msgstr i3. ?second = Inr (msgstr, i3)"
    using extract_po_string_lines_total by (auto simp: Let_def)
  then obtain msgstr i3 where b: "?second = Inr (msgstr, i3)" by blast
  show ?thesis
    unfolding extract_pairs_body_def using True a b by (simp del: split_paired_Ex)
qed

lemma extract_pairs_loop_total: "\<exists>ps. extract_pairs_loop lines i pairs = Inr ps"
proof (induction lines i pairs rule: extract_pairs_loop.induct)
  case (1 lines i pairs)
  show ?case
  proof (cases "i < length lines")
    case False
    then show ?thesis by (simp add: extract_pairs_loop.simps [of lines i])
  next
    case True
    then obtain j pairs' where b: "extract_pairs_body lines i pairs = Inr (j, pairs')"
      using extract_pairs_body_total by blast
    from "1.IH" [OF True b refl] obtain ps where "extract_pairs_loop lines j pairs' = Inr ps"
      by blast
    with True b show ?thesis by (simp add: extract_pairs_loop.simps [of lines i])
  qed
qed

text \<open>
  Claim C8. For every finite list of strings \<^verbatim>\<open>_extract_pairs_from_lines\<close> returns a list
  and raises nothing, and \<^verbatim>\<open>_extract_po_string_lines\<close> returns a value and a next index
  at every start index below the length of the list. Malformed or truncated input gives
  fewer pairs or none, never an error.
\<close>

theorem scanner_never_raises:
  "(\<exists>pairs. extract_pairs_from_lines lines = Inr pairs)
   \<and> (start < length lines \<longrightarrow> (\<exists>v j. extract_po_string_lines lines start = Inr (v, j)))"
  using extract_pairs_loop_total [of lines 0 "[]"] extract_po_string_lines_total [of start lines]
  by (simp add: extract_pairs_from_lines_def)

theorem scanner_never_raises_witness:
  "extract_pairs_from_lines [''msgid '' @ [dquote] @ ''A'', ''msgstr''] = Inr []
   \<and> (0::nat) < length [''msgid '' @ [dquote] @ ''A'', ''msgstr'']
   \<and> extract_po_string_lines [''msgid '' @ [dquote] @ ''A'', ''msgstr''] 0 = Inr ([], 1)"
proof -
  have a: "extract_pairs_from_lines [''msgid '' @ [dquote] @ ''A'', ''msgstr''] = Inr []"
    by code_simp
  have b: "extract_po_string_lines [''msgid '' @ [dquote] @ ''A'', ''msgstr''] 0 = Inr ([], 1)"
    by code_simp
  show ?thesis
    using a b scanner_never_raises [of "[''msgid '' @ [dquote] @ ''A'', ''msgstr'']" 0]
    by simp
qed

section \<open>Unescaping in one pass\<close>

lemma unescape_po_escape:
  assumes "unescape_po s = Inr out"
  shows "unescape_po (backslash # backslash # s) = Inr (backslash # out)"
    and "unescape_po (backslash # CHR ''n'' # s) = Inr (newline # out)"
    and "unescape_po (backslash # CHR ''t'' # s) = Inr (tab # out)"
    and "unescape_po (backslash # dquote # s) = Inr (dquote # out)"
  using assms by (simp_all add: PO_ESCAPES_def backslash_def dquote_def)

lemma unescape_po_copy:
  assumes "unescape_po s = Inr out" and "PO_ESCAPE_RE (c # s) = None"
  shows "unescape_po (c # s) = Inr (c # out)"
  using assms by simp

text \<open>
  Claim C6. \<^verbatim>\<open>_unescape_po\<close> makes one pass from the left: each of the four two-character
  escape sequences at the cursor is replaced by its character and the pass goes on after it,
  any other character is copied. An escaped backslash followed by the letter n gives a
  backslash and the letter n, not a newline.
\<close>

theorem unescape_po_one_pass:
  "unescape_po [] = Inr []
   \<and> (unescape_po s = Inr out \<longrightarrow>
        unescape_po (backslash # backslash # s) = Inr (backslash # out)
      \<and> unescape_po (backslash # CHR ''n'' # s) = Inr (newline # out)
      \<and> unescape_po (backslash # CHR ''t'' # s) = Inr (tab # out)
      \<and> unescape_po (backslash # dquote # s) = Inr (dquote # out)
      \<and> (PO_ESCAPE_RE (c # s) = None \<longrightarrow> unescape_po (c # s) = Inr (c # out)))
   \<and> unescape_po [backslash, backslash, CHR ''n''] = Inr [backslash, CHR ''n'']
   \<and> unescape_po [backslash, backslash, CHR ''n''] \<noteq> Inr [newline]
   \<and> unescape_po [backslash, backslash, CHR ''n''] \<noteq> Inr [backslash, newline]"
proof -
  have ex: "unescape_po [backslash, backslash, CHR ''n''] = Inr [backslash, CHR ''n'']"
    by code_simp
  have ne: "unescape_po [backslash, backslash, CHR ''n''] \<noteq> Inr [newline]"
    "unescape_po [backslash, backslash, CHR ''n''] \<noteq> Inr [backslash, newline]"
    unfolding ex by (simp_all add: newline_def)
  have nil: "unescape_po [] = Inr []" by simp
  show ?thesis
    using nil ex ne unescape_po_escape [of s out] unescape_po_copy [of s out c] by blast
qed

theorem unescape_po_one_pass_witness:
  "unescape_po ''n'' = Inr ''n''
   \<and> unescape_po [backslash, backslash, CHR ''n''] = Inr [backslash, CHR ''n'']
   \<and> unescape_po [backslash, CHR ''n'', CHR ''n''] = Inr [newline, CHR ''n'']
   \<and> PO_ESCAPE_RE ''xn'' = None \<and> unescape_po ''xn'' = Inr ''xn''"
proof -
  have h: "unescape_po ''n'' = Inr ''n''" by code_simp
  have n: "PO_ESCAPE_RE ''xn'' = None" by code_simp
  show ?thesis
    using h n unescape_po_one_pass [of "''n''" "''n''" "CHR ''x''"] by simp
qed

section \<open>Keys of the extracted pairs\<close>

lemma extract_pairs_body_keys:
  assumes "extract_pairs_body lines i pairs = Inr (j, pairs')"
    and "\<And>k v. (k, v) \<in> set pairs \<Longrightarrow> k \<noteq> []"
    and "(k, v) \<in> set pairs'"
  shows "k \<noteq> []"
proof (cases "startswith (lines ! i) msgid_kw")
  case False
  with assms show ?thesis by (auto simp: extract_pairs_body_def)
next
  case True
  with assms(1) obtain msgid i1 where
    a: "extract_po_string_lines lines i = Inr (msgid, i1)"
    by (auto simp: extract_pairs_body_def split: sum.splits)
  let ?second = "(if i1 < length lines \<and> startswith (lines ! i1) msgstr_kw
                       then extract_po_string_lines lines i1
                       else (let i2 = skip_to_keyword lines i1
                             in if i2 < length lines \<and> startswith (lines ! i2) msgstr_kw
                                then extract_po_string_lines lines i2
                                else Inr ([], i2)))"
  from assms(1) True a obtain msgstr where b: "?second = Inr (msgstr, j)"
    and c: "pairs' = (if msgid \<noteq> [] then pairs @ [(msgid, msgstr)] else pairs)"
    by (auto simp: extract_pairs_body_def split: sum.splits)
  from c assms(2,3) show ?thesis by (auto split: if_splits)
qed

lemma extract_pairs_loop_keys:
  assumes "extract_pairs_loop lines i pairs = Inr ps"
    and "\<And>k v. (k, v) \<in> set pairs \<Longrightarrow> k \<noteq> []"
    and "(k, v) \<in> set ps"
  shows "k \<noteq> []"
  using assms
proof (induction lines i pairs rule: extract_pairs_loop.induct)
  case (1 lines i pairs)
  show ?case
  proof (cases "i < length lines")
    case False
    with "1.prems" show ?thesis by (auto simp: extract_pairs_loop.simps [of lines i])
  next
    case True
    then obtain j pairs' where b: "extract_pairs_body lines i pairs = Inr (j, pairs')"
      using extract_pairs_body_total by blast
    with True "1.prems"(1) have l: "extract_pairs_loop lines j pairs' = Inr ps"
      by (simp add: extract_pairs_loop.simps [of lines i])
    have k: "\<And>k v. (k, v) \<in> set pairs' \<Longrightarrow> k \<noteq> []"
      using extract_pairs_body_keys [OF b] "1.prems"(2) by blast
    from "1.IH" [OF True b refl l k "1.prems"(3)] show ?thesis .
  qed
qed

lemma extract_pairs_from_lines_keys:
  "extract_pairs_from_lines lines = Inr ps \<Longrightarrow> (k, v) \<in> set ps \<Longrightarrow> k \<noteq> []"
  unfolding extract_pairs_from_lines_def
  by (erule extract_pairs_loop_keys) auto

section \<open>Where a change comes from\<close>

lemma compare_pairs_eq:
  "compare_pairs current_locale old_lookup new_pairs results =
     results @ map (\<lambda>(k, v). (current_locale, k, v))
       (filter (\<lambda>(k, v). v \<noteq> [] \<and> v \<noteq> get_or_empty old_lookup k) new_pairs)"
  by (induction current_locale old_lookup new_pairs results rule: compare_pairs.induct)
    (simp_all add: Let_def)

text \<open>
  \<open>hunk_emits current_locale h c\<close>: the change \<open>c\<close> is an entry of the post-image of
  the hunk \<open>h\<close> whose value is not empty and differs from the value that the pre-image of \<open>h\<close>
  gives to the same key (the empty string when the key is absent).
\<close>

definition hunk_emits :: "string \<Rightarrow> hunk \<Rightarrow> change \<Rightarrow> bool" where
  "hunk_emits current_locale h c =
     (\<exists>new_pairs old_pairs msgid msgstr.
        extract_pairs_from_lines (fst (hunk_sides h [] [])) = Inr new_pairs
      \<and> extract_pairs_from_lines (snd (hunk_sides h [] [])) = Inr old_pairs
      \<and> c = (current_locale, msgid, msgstr)
      \<and> (msgid, msgstr) \<in> set new_pairs
      \<and> msgstr \<noteq> []
      \<and> msgstr \<noteq> get_or_empty (build_old_lookup old_pairs Map.empty) msgid)"

lemma hunk_loop_member:
  "hunk_loop current_locale hs results = Inr rs \<Longrightarrow> c \<in> set rs \<Longrightarrow>
     c \<in> set results \<or> (\<exists>h \<in> set hs. hunk_emits current_locale h c)"
proof (induction hs arbitrary: results)
  case Nil
  then show ?case by simp
next
  case (Cons h hs)
  obtain plus_lines minus_lines where s: "hunk_sides h [] [] = (plus_lines, minus_lines)"
    by (cases "hunk_sides h [] []")
  from Cons.prems(1) s obtain new_pairs old_pairs where
    n: "extract_pairs_from_lines plus_lines = Inr new_pairs" and
    ol: "extract_pairs_from_lines minus_lines = Inr old_pairs" and
    r: "hunk_loop current_locale hs
          (compare_pairs current_locale (build_old_lookup old_pairs Map.empty) new_pairs results)
        = Inr rs"
    by (auto split: sum.splits)
  from Cons.IH [OF r Cons.prems(2)] show ?case
  proof
    assume "c \<in> set (compare_pairs current_locale (build_old_lookup old_pairs Map.empty)
                      new_pairs results)"
    then have "c \<in> set results \<or> hunk_emits current_locale h c"
      using s n ol by (auto simp: compare_pairs_eq hunk_emits_def)
    then show ?thesis by auto
  next
    assume "\<exists>h \<in> set hs. hunk_emits current_locale h c"
    then show ?thesis by auto
  qed
qed

lemma file_loop_member:
  "file_loop fs results = Inr rs \<Longrightarrow> c \<in> set rs \<Longrightarrow>
     c \<in> set results
     \<or> (\<exists>f \<in> set fs. \<exists>h \<in> set (hunks f). \<exists>current_locale.
          file_match (path f) = Some current_locale \<and> hunk_emits current_locale h c)"
proof (induction fs arbitrary: results)
  case Nil
  then show ?case by simp
next
  case (Cons f fs)
  show ?case
  proof (cases "file_match (path f)")
    case None
    with Cons.prems(1) have "file_loop fs results = Inr rs" by simp
    from Cons.IH [OF this Cons.prems(2)] show ?thesis by auto
  next
    case (Some current_locale)
    with Cons.prems(1) obtain results' where
      h: "hunk_loop current_locale (hunks f) results = Inr results'" and
      r: "file_loop fs results' = Inr rs"
      by (auto split: sum.splits)
    from Cons.IH [OF r Cons.prems(2)] show ?thesis
    proof
      assume "c \<in> set results'"
      from hunk_loop_member [OF h this] Some show ?thesis by auto
    next
      assume "\<exists>f \<in> set fs. \<exists>h \<in> set (hunks f). \<exists>current_locale.
          file_match (path f) = Some current_locale \<and> hunk_emits current_locale h c"
      then show ?thesis by auto
    qed
  qed
qed

lemma parse_po_diff_member:
  assumes "parse_po_diff PatchSet diff_text = Inr results" and "c \<in> set results"
  shows "\<exists>patch_set f h current_locale.
           strip diff_text \<noteq> [] \<and> PatchSet diff_text = Inr patch_set \<and> f \<in> set patch_set
         \<and> h \<in> set (hunks f) \<and> file_match (path f) = Some current_locale
         \<and> hunk_emits current_locale h c"
proof -
  from assms have ne: "strip diff_text \<noteq> []"
    by (auto simp: parse_po_diff_def split: if_splits)
  with assms(1) obtain patch_set where p: "PatchSet diff_text = Inr patch_set"
    and l: "file_loop patch_set [] = Inr results"
    by (auto simp: parse_po_diff_def split: sum.splits)
  from file_loop_member [OF l assms(2)] ne p show ?thesis by auto
qed

section \<open>The header entry\<close>

text \<open>
  Claim C7. For every list of lines, no pair returned by \<^verbatim>\<open>_extract_pairs_from_lines\<close> has
  the empty key, so the header entry \<^verbatim>\<open>msgid ""\<close> is left out; and for every diff text, no
  tuple returned by \<^verbatim>\<open>parse_po_diff\<close> has the empty key.
\<close>

theorem header_entry_excluded:
  "(\<exists>pairs. extract_pairs_from_lines lines = Inr pairs \<and> (\<forall>v. ([], v) \<notin> set pairs))
   \<and> (parse_po_diff PatchSet diff_text = Inr results \<longrightarrow>
        (\<forall>current_locale msgstr. (current_locale, [], msgstr) \<notin> set results))"
proof (intro conjI impI allI)
  obtain pairs where p: "extract_pairs_from_lines lines = Inr pairs"
    using extract_pairs_loop_total [of lines 0 "[]"] by (auto simp: extract_pairs_from_lines_def)
  then have "\<forall>v. ([], v) \<notin> set pairs"
    using extract_pairs_from_lines_keys by blast
  with p show "\<exists>pairs. extract_pairs_from_lines lines = Inr pairs \<and> (\<forall>v. ([], v) \<notin> set pairs)"
    by blast
next
  fix current_locale msgstr
  assume r: "parse_po_diff PatchSet diff_text = Inr results"
  show "(current_locale, [], msgstr) \<notin> set results"
  proof
    assume "(current_locale, [], msgstr) \<in> set results"
    from parse_po_diff_member [OF r this] obtain h loc where
      "hunk_emits loc h (current_locale, [], msgstr)" by blast
    then show False
      by (auto simp: hunk_emits_def dest: extract_pairs_from_lines_keys)
  qed
qed

text \<open>
  An instance: a header entry followed by one entry, all lines added in a file of the
  \<^verbatim>\<open>de_DE\<close> directory.
\<close>

definition header_lines :: "string list" where
  "header_lines = [msgid_kw @ [dquote], msgstr_kw @ ''Header content'' @ [dquote], [],
                   msgid_kw @ ''Real'' @ [dquote], msgstr_kw @ ''Actual'' @ [dquote]]"

definition header_hunk :: hunk where
  "header_hunk = map (\<lambda>v. \<lparr>is_added = True, is_removed = False, line_value = v @ [newline]\<rparr>)
                   header_lines"

definition header_file :: patched_file where
  "header_file = \<lparr>path = ''locale/de_DE/electrum.po'', hunks = [header_hunk]\<rparr>"

lemma header_lines_pairs:
  "extract_pairs_from_lines header_lines = Inr [(''Real'', ''Actual'')]"
  by code_simp

lemma header_file_changes:
  "parse_po_diff (\<lambda>d. Inr [header_file]) ''diff'' = Inr [(''de_DE'', ''Real'', ''Actual'')]"
  by code_simp

theorem header_entry_excluded_witness:
  "extract_pairs_from_lines header_lines = Inr [(''Real'', ''Actual'')]
   \<and> parse_po_diff (\<lambda>d. Inr [header_file]) ''diff'' = Inr [(''de_DE'', ''Real'', ''Actual'')]
   \<and> (''de_DE'', [], ''Actual'') \<notin> set [(''de_DE'', ''Real'', ''Actual'')]"
  using header_lines_pairs header_file_changes
    header_entry_excluded [of header_lines "\<lambda>d. Inr [header_file]" "''diff''"
      "[(''de_DE'', ''Real'', ''Actual'')]"]
  by simp

section \<open>Every change is non-empty and differs from the old value\<close>

text \<open>
  Claim C2. For every diff text, every tuple that \<^verbatim>\<open>parse_po_diff\<close> returns has a non-empty
  new value, and it comes from a hunk of a matching file in whose post-image the key has
  that value, which differs from the value of the key in the lookup built from the pre-image
  of the same hunk (the empty string when the key is absent). So an entry whose value is
  empty, or equal to the old value, gives no tuple.
\<close>

theorem changes_nonempty_and_changed:
  assumes "parse_po_diff PatchSet diff_text = Inr results"
    and "(current_locale, msgid, msgstr) \<in> set results"
  shows "msgstr \<noteq> []
       \<and> (\<exists>patch_set f h new_pairs old_pairs.
            PatchSet diff_text = Inr patch_set \<and> f \<in> set patch_set
          \<and> file_match (path f) = Some current_locale \<and> h \<in> set (hunks f)
          \<and> extract_pairs_from_lines (fst (hunk_sides h [] [])) = Inr new_pairs
          \<and> extract_pairs_from_lines (snd (hunk_sides h [] [])) = Inr old_pairs
          \<and> (msgid, msgstr) \<in> set new_pairs
          \<and> msgstr \<noteq> get_or_empty (build_old_lookup old_pairs Map.empty) msgid)"
proof -
  from parse_po_diff_member [OF assms] obtain patch_set f h loc where
    p: "PatchSet diff_text = Inr patch_set" "f \<in> set patch_set" "h \<in> set (hunks f)"
      "file_match (path f) = Some loc" and
    e: "hunk_emits loc h (current_locale, msgid, msgstr)"
    by blast
  from e obtain new_pairs old_pairs where
    "extract_pairs_from_lines (fst (hunk_sides h [] [])) = Inr new_pairs"
    "extract_pairs_from_lines (snd (hunk_sides h [] [])) = Inr old_pairs"
    "loc = current_locale" "(msgid, msgstr) \<in> set new_pairs" "msgstr \<noteq> []"
    "msgstr \<noteq> get_or_empty (build_old_lookup old_pairs Map.empty) msgid"
    by (auto simp: hunk_emits_def)
  with p show ?thesis by blast
qed

section \<open>The scenario of a new translation\<close>

text \<open>
  The three lines of the scenario: \<^verbatim>\<open>msgid "Wallet"\<close>, \<^verbatim>\<open>msgstr ""\<close> and
  \<^verbatim>\<open>msgstr "Geldbeutel"\<close>.
\<close>

definition wallet_msgid :: string where
  "wallet_msgid = msgid_kw @ ''Wallet'' @ [dquote]"

definition wallet_old :: string where
  "wallet_old = msgstr_kw @ [dquote]"

definition wallet_new :: string where
  "wallet_new = msgstr_kw @ ''Geldbeutel'' @ [dquote]"

lemma wallet_plus:
  "extract_pairs_from_lines [wallet_msgid, wallet_new] = Inr [(''Wallet'', ''Geldbeutel'')]"
  by code_simp

lemma wallet_minus:
  "extract_pairs_from_lines [wallet_msgid, wallet_old] = Inr [(''Wallet'', [])]"
  by code_simp

text \<open>
  Claim C1. For a diff that is not blank and parses to one file whose path matches with the
  group \<^verbatim>\<open>de_DE\<close>, with one hunk made of the context line \<^verbatim>\<open>msgid "Wallet"\<close>, the removed
  line \<^verbatim>\<open>msgstr ""\<close> and the added line \<^verbatim>\<open>msgstr "Geldbeutel"\<close>, \<^verbatim>\<open>parse_po_diff\<close>
  returns exactly the one tuple \<^verbatim>\<open>("de_DE", "Wallet", "Geldbeutel")\<close>, and the old value
  of the key is the empty string.
\<close>

theorem wallet_scenario:
  assumes "strip diff_text \<noteq> []"
    and "PatchSet diff_text = Inr [f]"
    and "file_match (path f) = Some ''de_DE''"
    and "hunks f = [[l1, l2, l3]]"
    and "\<not> is_added l1 \<and> \<not> is_removed l1 \<and> rstrip_newline (line_value l1) = wallet_msgid"
    and "\<not> is_added l2 \<and> is_removed l2 \<and> rstrip_newline (line_value l2) = wallet_old"
    and "is_added l3 \<and> rstrip_newline (line_value l3) = wallet_new"
  shows "parse_po_diff PatchSet diff_text = Inr [(''de_DE'', ''Wallet'', ''Geldbeutel'')]
       \<and> (\<exists>old_pairs. extract_pairs_from_lines (snd (hunk_sides [l1, l2, l3] [] [])) = Inr old_pairs
            \<and> get_or_empty (build_old_lookup old_pairs Map.empty) ''Wallet'' = [])"
proof -
  have s: "hunk_sides [l1, l2, l3] [] [] = ([wallet_msgid, wallet_new], [wallet_msgid, wallet_old])"
    using assms(5-7) by (simp add: Let_def)
  have g: "get_or_empty (build_old_lookup [(''Wallet'', [])] Map.empty) ''Wallet'' = []"
    by (simp add: get_or_empty_def)
  have "hunk_loop ''de_DE'' [[l1, l2, l3]] [] = Inr [(''de_DE'', ''Wallet'', ''Geldbeutel'')]"
    unfolding hunk_loop.simps s by (simp add: wallet_plus wallet_minus get_or_empty_def)
  then have p: "parse_po_diff PatchSet diff_text = Inr [(''de_DE'', ''Wallet'', ''Geldbeutel'')]"
    using assms(1-4) by (simp add: parse_po_diff_def)
  have "\<exists>old_pairs. extract_pairs_from_lines (snd (hunk_sides [l1, l2, l3] [] [])) = Inr old_pairs
            \<and> get_or_empty (build_old_lookup old_pairs Map.empty) ''Wallet'' = []"
    unfolding s using wallet_minus g by simp
  with p show ?thesis by blast
qed

definition wallet_line :: "bool \<Rightarrow> bool \<Rightarrow> string \<Rightarrow> diff_line" where
  "wallet_line a r v = \<lparr>is_added = a, is_removed = r, line_value = v @ [newline]\<rparr>"

definition wallet_file :: patched_file where
  "wallet_file =
     \<lparr>path = ''locale/de_DE/electrum.po'',
      hunks = [[wallet_line False False wallet_msgid, wallet_line False True wallet_old,
                wallet_line True False wallet_new]]\<rparr>"

lemma wallet_file_facts:
  "strip ''diff'' \<noteq> []"
  "file_match (path wallet_file) = Some ''de_DE''"
  "rstrip_newline (line_value (wallet_line False False wallet_msgid)) = wallet_msgid"
  "rstrip_newline (line_value (wallet_line False True wallet_old)) = wallet_old"
  "rstrip_newline (line_value (wallet_line True False wallet_new)) = wallet_new"
  by code_simp+

theorem wallet_scenario_witness:
  "strip ''diff'' \<noteq> []
   \<and> file_match (path wallet_file) = Some ''de_DE''
   \<and> parse_po_diff (\<lambda>d. Inr [wallet_file]) ''diff'' = Inr [(''de_DE'', ''Wallet'', ''Geldbeutel'')]"
  using wallet_file_facts
    wallet_scenario [of "''diff''" "\<lambda>d. Inr [wallet_file]" wallet_file
      "wallet_line False False wallet_msgid" "wallet_line False True wallet_old"
      "wallet_line True False wallet_new"]
  by (simp add: wallet_file_def wallet_line_def)

text \<open>
  An instance for claim C2: one hunk with a changed entry, an unchanged entry and a new
  entry without translation; only the changed entry is returned.
\<close>

definition two_entries :: patched_file where
  "two_entries =
     \<lparr>path = ''locale/fr_FR/electrum.po'',
      hunks = [[wallet_line False False (msgid_kw @ ''Send'' @ [dquote]),
                wallet_line False True (msgstr_kw @ ''Envoyer'' @ [dquote]),
                wallet_line True False (msgstr_kw @ ''Transmettre'' @ [dquote]),
                wallet_line False False (msgid_kw @ ''Wallet'' @ [dquote]),
                wallet_line False False (msgstr_kw @ ''Portefeuille'' @ [dquote]),
                wallet_line True False (msgid_kw @ ''New'' @ [dquote]),
                wallet_line True False (msgstr_kw @ [dquote])]]\<rparr>"

lemma two_entries_changes:
  "parse_po_diff (\<lambda>d. Inr [two_entries]) ''diff'' = Inr [(''fr_FR'', ''Send'', ''Transmettre'')]"
  by code_simp

theorem changes_nonempty_and_changed_witness:
  "parse_po_diff (\<lambda>d. Inr [two_entries]) ''diff'' = Inr [(''fr_FR'', ''Send'', ''Transmettre'')]
   \<and> (''fr_FR'', ''Send'', ''Transmettre'') \<in> set [(''fr_FR'', ''Send'', ''Transmettre'')]
   \<and> ''Transmettre'' \<noteq> []
   \<and> (\<exists>h new_pairs old_pairs.
         h \<in> set (hunks two_entries)
       \<and> extract_pairs_from_lines (fst (hunk_sides h [] [])) = Inr new_pairs
       \<and> extract_pairs_from_lines (snd (hunk_sides h [] [])) = Inr old_pairs
       \<and> (''Send'', ''Transmettre'') \<in> set new_pairs
       \<and> ''Transmettre'' \<noteq> get_or_empty (build_old_lookup old_pairs Map.empty) ''Send'')"
  using two_entries_changes
    changes_nonempty_and_changed [of "\<lambda>d. Inr [two_entries]" "''diff''"
      "[(''fr_FR'', ''Send'', ''Transmettre'')]" "''fr_FR''" "''Send''" "''Transmettre''"]
  by auto

section \<open>The cursor visits every key line\<close>

lemma continuation_not_msgid:
  "re_match_continuation s = Some g \<Longrightarrow> \<not> startswith s msgid_kw"
  by (cases s) (auto simp: re_match_continuation_def startswith_def msgid_kw_def dquote_def
      split: if_splits)

lemma startswith_nth: "startswith s p \<Longrightarrow> j < length p \<Longrightarrow> s ! j = p ! j"
  unfolding startswith_def by (metis nth_take)

lemma msgstr_not_msgid: "startswith s msgstr_kw \<Longrightarrow> \<not> startswith s msgid_kw"
  using startswith_nth [of s msgstr_kw 3] startswith_nth [of s msgid_kw 3]
  by (auto simp: msgstr_kw_def msgid_kw_def)

lemma collect_continuations_between:
  "collect_continuations lines i parts = (ps, j) \<Longrightarrow> i \<le> m \<Longrightarrow> m < j \<Longrightarrow>
     \<not> startswith (lines ! m) msgid_kw"
proof (induction lines i parts rule: collect_continuations.induct)
  case (1 lines i parts)
  show ?case
  proof (cases "i < length lines")
    case False
    with "1.prems" show ?thesis by (simp add: collect_continuations.simps [of lines i])
  next
    case True
    show ?thesis
    proof (cases "re_match_continuation (lines ! i)")
      case None
      with True "1.prems" show ?thesis by (simp add: collect_continuations.simps [of lines i])
    next
      case (Some g)
      with True "1.prems"(1) have c: "collect_continuations lines (i + 1) (parts @ [g]) = (ps, j)"
        by (simp add: collect_continuations.simps [of lines i])
      show ?thesis
      proof (cases "m = i")
        case True
        with Some show ?thesis by (simp add: continuation_not_msgid)
      next
        case False
        with "1.prems"(2) have "i + 1 \<le> m" by simp
        from "1.IH" [OF True Some c this "1.prems"(3)] show ?thesis .
      qed
    qed
  qed
qed

lemma extract_po_string_lines_between:
  assumes "extract_po_string_lines lines start = Inr (v, j)" and "start < m" and "m < j"
  shows "\<not> startswith (lines ! m) msgid_kw"
proof (cases "re_search_quoted (lines ! start)")
  case None
  with assms show ?thesis by (auto simp: extract_po_string_lines_def split: if_splits)
next
  case (Some g)
  obtain parts i where c: "collect_continuations lines (start + 1) [g] = (parts, i)"
    by (cases "collect_continuations lines (start + 1) [g]")
  with assms(1) Some have "i = j"
    by (auto simp: extract_po_string_lines_def split: if_splits sum.splits)
  with c assms(2,3) show ?thesis
    by (auto dest: collect_continuations_between [where m = m])
qed

lemma skip_to_keyword_between:
  "i \<le> m \<Longrightarrow> m < skip_to_keyword lines i \<Longrightarrow>
     \<not> startswith (lines ! m) msgstr_kw \<and> \<not> startswith (lines ! m) msgid_kw"
proof (induction lines i rule: skip_to_keyword.induct)
  case (1 lines i)
  show ?case
  proof (cases "i < length lines \<and> \<not> startswith (lines ! i) msgstr_kw
         \<and> \<not> startswith (lines ! i) msgid_kw")
    case False
    then have "skip_to_keyword lines i = i"
      by (subst skip_to_keyword.simps) auto
    with "1.prems" show ?thesis by simp
  next
    case True
    then have e: "skip_to_keyword lines i = skip_to_keyword lines (i + 1)"
      by (subst skip_to_keyword.simps) simp
    show ?thesis
    proof (cases "m = i")
      case True
      with \<open>i < length lines \<and> \<not> startswith (lines ! i) msgstr_kw
         \<and> \<not> startswith (lines ! i) msgid_kw\<close> show ?thesis by simp
    next
      case False
      with "1.prems"(1) have "i + 1 \<le> m" by simp
      moreover from "1.prems"(2) e have "m < skip_to_keyword lines (i + 1)" by simp
      ultimately show ?thesis using "1.IH" True by blast
    qed
  qed
qed

lemma skip_to_keyword_stop:
  "skip_to_keyword lines i < length lines \<Longrightarrow>
     startswith (lines ! skip_to_keyword lines i) msgstr_kw
     \<or> startswith (lines ! skip_to_keyword lines i) msgid_kw"
proof (induction lines i rule: skip_to_keyword.induct)
  case (1 lines i)
  show ?case
  proof (cases "i < length lines \<and> \<not> startswith (lines ! i) msgstr_kw
         \<and> \<not> startswith (lines ! i) msgid_kw")
    case False
    then have e: "skip_to_keyword lines i = i"
      by (subst skip_to_keyword.simps) auto
    with "1.prems" False show ?thesis by auto
  next
    case True
    then have e: "skip_to_keyword lines i = skip_to_keyword lines (i + 1)"
      by (subst skip_to_keyword.simps) simp
    with "1.IH" True "1.prems" show ?thesis by simp
  qed
qed

lemma extract_pairs_body_between:
  assumes "extract_pairs_body lines i pairs = Inr (j, pairs')" and "i < m" and "m < j"
  shows "\<not> startswith (lines ! m) msgid_kw"
proof (cases "startswith (lines ! i) msgid_kw")
  case False
  with assms show ?thesis by (simp add: extract_pairs_body_def)
next
  case True
  with assms(1) obtain msgid i1 where
    a: "extract_po_string_lines lines i = Inr (msgid, i1)"
    by (auto simp: extract_pairs_body_def split: sum.splits)
  let ?second = "(if i1 < length lines \<and> startswith (lines ! i1) msgstr_kw
                       then extract_po_string_lines lines i1
                       else (let i2 = skip_to_keyword lines i1
                             in if i2 < length lines \<and> startswith (lines ! i2) msgstr_kw
                                then extract_po_string_lines lines i2
                                else Inr ([], i2)))"
  from assms(1) True a obtain msgstr where b: "?second = Inr (msgstr, j)"
    by (auto simp: extract_pairs_body_def split: sum.splits)
  show ?thesis
  proof (cases "m < i1")
    case True
    with a assms(2) show ?thesis by (auto dest: extract_po_string_lines_between)
  next
    case False
    then have m1: "i1 \<le> m" by simp
    show ?thesis
    proof (cases "i1 < length lines \<and> startswith (lines ! i1) msgstr_kw")
      case True
      with b have e: "extract_po_string_lines lines i1 = Inr (msgstr, j)" by simp
      show ?thesis
      proof (cases "m = i1")
        case True
        with \<open>i1 < length lines \<and> startswith (lines ! i1) msgstr_kw\<close> show ?thesis
          by (simp add: msgstr_not_msgid)
      next
        case False
        with m1 have "i1 < m" by simp
        from extract_po_string_lines_between [OF e this assms(3)] show ?thesis .
      qed
    next
      case False
      note nf = False
      let ?i2 = "skip_to_keyword lines i1"
      show ?thesis
      proof (cases "m < ?i2")
        case True
        with m1 show ?thesis by (simp add: skip_to_keyword_between)
      next
        case False
        then have m2: "?i2 \<le> m" by simp
        show ?thesis
        proof (cases "?i2 < length lines \<and> startswith (lines ! ?i2) msgstr_kw")
          case True
          with b nf have e: "extract_po_string_lines lines ?i2 = Inr (msgstr, j)"
            by (simp add: Let_def)
          show ?thesis
          proof (cases "m = ?i2")
            case True
            with \<open>?i2 < length lines \<and> startswith (lines ! ?i2) msgstr_kw\<close> show ?thesis
              by (simp add: msgstr_not_msgid)
          next
            case False
            with m2 have "?i2 < m" by simp
            from extract_po_string_lines_between [OF e this assms(3)] show ?thesis .
          qed
        next
          case False
          with b nf have "j = ?i2" by (auto simp: Let_def)
          with m2 assms(3) show ?thesis by simp
        qed
      qed
    qed
  qed
qed

lemma extract_pairs_body_mono:
  assumes "extract_pairs_body lines i pairs = Inr (j, pairs')"
  shows "set pairs \<subseteq> set pairs'"
proof (cases "startswith (lines ! i) msgid_kw")
  case False
  with assms show ?thesis by (simp add: extract_pairs_body_def)
next
  case True
  with assms obtain msgid msgstr where
    "pairs' = (if msgid \<noteq> [] then pairs @ [(msgid, msgstr)] else pairs)"
    by (auto simp: extract_pairs_body_def split: sum.splits)
  then show ?thesis by auto
qed

lemma extract_pairs_loop_mono:
  "extract_pairs_loop lines i pairs = Inr ps \<Longrightarrow> set pairs \<subseteq> set ps"
proof (induction lines i pairs rule: extract_pairs_loop.induct)
  case (1 lines i pairs)
  show ?case
  proof (cases "i < length lines")
    case False
    with "1.prems" show ?thesis by (simp add: extract_pairs_loop.simps [of lines i])
  next
    case True
    then obtain j pairs' where b: "extract_pairs_body lines i pairs = Inr (j, pairs')"
      using extract_pairs_body_total by blast
    with True "1.prems" have l: "extract_pairs_loop lines j pairs' = Inr ps"
      by (simp add: extract_pairs_loop.simps [of lines i])
    from "1.IH" [OF True b refl l] extract_pairs_body_mono [OF b] show ?thesis by blast
  qed
qed

lemma extract_pairs_loop_reaches:
  "extract_pairs_loop lines i0 pairs = Inr ps \<Longrightarrow> i0 \<le> i \<Longrightarrow> i < length lines \<Longrightarrow>
   startswith (lines ! i) msgid_kw \<Longrightarrow>
   \<exists>pairs1 j pairs2. extract_pairs_body lines i pairs1 = Inr (j, pairs2) \<and> set pairs2 \<subseteq> set ps"
proof (induction lines i0 pairs rule: extract_pairs_loop.induct)
  case (1 lines i0 pairs)
  from "1.prems"(2,3) have lt: "i0 < length lines" by simp
  then obtain j pairs' where b: "extract_pairs_body lines i0 pairs = Inr (j, pairs')"
    using extract_pairs_body_total by blast
  with lt "1.prems"(1) have l: "extract_pairs_loop lines j pairs' = Inr ps"
    by (simp add: extract_pairs_loop.simps [of lines i0])
  show ?case
  proof (cases "i0 = i")
    case True
    with b extract_pairs_loop_mono [OF l] show ?thesis by blast
  next
    case False
    with "1.prems"(2) have "i0 < i" by simp
    with extract_pairs_body_between [OF b, of i] "1.prems"(4) have "j \<le> i"
      by (cases "i < j") auto
    from "1.IH" [OF lt b refl l this "1.prems"(3,4)] show ?thesis .
  qed
qed

section \<open>A key line without a value line\<close>

text \<open>
  Two inputs in which a key line has no value line: a key line alone, and a key line followed
  by a comment and the next entry.
\<close>

definition lone_key :: "string list" where
  "lone_key = [msgid_kw @ ''A'' @ [dquote]]"

definition key_then_key :: "string list" where
  "key_then_key = [msgid_kw @ ''A'' @ [dquote], ''# note'', msgid_kw @ ''B'' @ [dquote],
                   msgstr_kw @ ''b'' @ [dquote]]"

text \<open>
  Claim C5 says that a key line followed by no \<^verbatim>\<open>msgstr\<close> line before the next key line or
  the end of the input gives no entry. The program sets \<^verbatim>\<open>msgstr = ""\<close> in that case and
  appends the pair all the same: on both inputs the key \<^verbatim>\<open>A\<close> is in the output, with the
  empty value.
\<close>

theorem key_without_value_counterexample:
  "length lone_key = 1 \<and> startswith (lone_key ! 0) msgid_kw
   \<and> extract_pairs_from_lines lone_key = Inr [(''A'', [])]
   \<and> startswith (key_then_key ! 0) msgid_kw \<and> \<not> startswith (key_then_key ! 1) msgstr_kw
   \<and> startswith (key_then_key ! 2) msgid_kw
   \<and> extract_pairs_from_lines key_then_key = Inr [(''A'', []), (''B'', ''b'')]"
  by code_simp

text \<open>
  Claim C5 as amended. Let line \<open>i\<close> be a key line whose string \<open>k\<close> is not empty and ends
  before line \<open>i1\<close>, and let no line from \<open>i1\<close> on start with \<^verbatim>\<open>msgstr "\<close> before the next
  key line or the end of the input. Then the output of \<^verbatim>\<open>_extract_pairs_from_lines\<close>
  contains the entry of key \<open>k\<close> with the empty value.
\<close>

theorem key_without_value_is_emitted_empty:
  assumes "i < length lines"
    and "startswith (lines ! i) msgid_kw"
    and "extract_po_string_lines lines i = Inr (k, i1)"
    and "k \<noteq> []"
    and "\<forall>m. i1 \<le> m \<and> m < length lines
            \<and> (\<forall>m'. i1 \<le> m' \<and> m' < m \<longrightarrow> \<not> startswith (lines ! m') msgid_kw)
          \<longrightarrow> \<not> startswith (lines ! m) msgstr_kw"
  shows "\<exists>pairs. extract_pairs_from_lines lines = Inr pairs \<and> (k, []) \<in> set pairs"
proof -
  obtain ps where ps: "extract_pairs_loop lines 0 [] = Inr ps"
    using extract_pairs_loop_total by blast
  from extract_pairs_loop_reaches [OF ps _ assms(1,2)] obtain pairs1 j pairs2 where
    b: "extract_pairs_body lines i pairs1 = Inr (j, pairs2)" and s: "set pairs2 \<subseteq> set ps"
    by auto
  let ?i2 = "skip_to_keyword lines i1"
  have n1: "\<not> (i1 < length lines \<and> startswith (lines ! i1) msgstr_kw)"
    using assms(5) by auto
  have n2: "\<not> (?i2 < length lines \<and> startswith (lines ! ?i2) msgstr_kw)"
  proof
    assume a: "?i2 < length lines \<and> startswith (lines ! ?i2) msgstr_kw"
    have "\<forall>m'. i1 \<le> m' \<and> m' < ?i2 \<longrightarrow> \<not> startswith (lines ! m') msgid_kw"
      using skip_to_keyword_between [of i1 _ lines] by blast
    with assms(5) a skip_to_keyword_index [of i1 lines] show False by blast
  qed
  from b assms(2,3,4) n1 n2 have "pairs2 = pairs1 @ [(k, [])]"
    by (auto simp: extract_pairs_body_def Let_def)
  with s have "(k, []) \<in> set ps" by auto
  with ps show ?thesis by (simp add: extract_pairs_from_lines_def)
qed

lemma key_then_key_facts:
  "(0::nat) < length key_then_key"
  "startswith (key_then_key ! 0) msgid_kw"
  "extract_po_string_lines key_then_key 0 = Inr (''A'', 1)"
  "\<not> startswith (key_then_key ! 1) msgstr_kw"
  "startswith (key_then_key ! 2) msgid_kw"
  "length key_then_key = 4"
  "extract_pairs_from_lines key_then_key = Inr [(''A'', []), (''B'', ''b'')]"
  by code_simp+

theorem key_without_value_is_emitted_empty_witness:
  "(0::nat) < length key_then_key
   \<and> startswith (key_then_key ! 0) msgid_kw
   \<and> extract_po_string_lines key_then_key 0 = Inr (''A'', 1)
   \<and> extract_pairs_from_lines key_then_key = Inr [(''A'', []), (''B'', ''b'')]
   \<and> (''A'', []) \<in> set [(''A'', []), (''B'', ''b'')]"
proof -
  have h: "\<forall>m. 1 \<le> m \<and> m < length key_then_key
            \<and> (\<forall>m'. 1 \<le> m' \<and> m' < m \<longrightarrow> \<not> startswith (key_then_key ! m') msgid_kw)
          \<longrightarrow> \<not> startswith (key_then_key ! m) msgstr_kw"
  proof (intro allI impI)
    fix m
    assume a: "1 \<le> m \<and> m < length key_then_key
            \<and> (\<forall>m'. 1 \<le> m' \<and> m' < m \<longrightarrow> \<not> startswith (key_then_key ! m') msgid_kw)"
    have "m \<le> 2"
    proof (rule ccontr)
      assume "\<not> m \<le> 2"
      then have "1 \<le> (2::nat) \<and> 2 < m" by simp
      with a key_then_key_facts(5) show False by blast
    qed
    with a have "m = 1 \<or> m = 2" by auto
    then show "\<not> startswith (key_then_key ! m) msgstr_kw"
      using key_then_key_facts(4,5) msgstr_not_msgid by auto
  qed
  from key_without_value_is_emitted_empty [OF key_then_key_facts(1,2,3) _ h]
  have "\<exists>pairs. extract_pairs_from_lines key_then_key = Inr pairs \<and> (''A'', []) \<in> set pairs"
    by simp
  with key_then_key_facts show ?thesis by simp
qed

section \<open>Which files are eligible\<close>













section \<open>Calls of the classifier\<close>

text \<open>
  One attempt of \<^verbatim>\<open>call_openai_async\<close>, as the program sees it: \<^verbatim>\<open>session.post\<close> raises (no
  connection, timeout), or a response arrives with its status and, when the body is JSON that
  holds it, the text at \<^verbatim>\<open>choices[0].message.content\<close>.
\<close>

datatype attempt = PostFailed | Response nat "string option"

text \<open>
  \<^verbatim>\<open>s.lower()\<close>: below 256 the capital letters are 65 to 90 and 192 to 222 without 215, and
  the small letter is 32 above.
\<close>

definition lower_char :: "char \<Rightarrow> char" where
  "lower_char c =
     (let n = (of_char c :: nat)
      in if (65 \<le> n \<and> n \<le> 90) \<or> (192 \<le> n \<and> n \<le> 222 \<and> n \<noteq> 215)
         then char_of (n + 32) else c)"

definition lower :: "string \<Rightarrow> string" where
  "lower s = map lower_char s"

text \<open>
  The body of the \<^verbatim>\<open>try\<close> block: a status other than 200 raises \<^verbatim>\<open>RuntimeError\<close>, a body
  without the text raises, the text is stripped and lowered, and the \<^verbatim>\<open>assert\<close> raises
  \<^verbatim>\<open>AssertionError\<close> unless the result is \<^verbatim>\<open>genuine\<close> or \<^verbatim>\<open>spam\<close>.
\<close>

definition request :: "attempt \<Rightarrow> error + string" where
  "request a =
     (case a of
        PostFailed \<Rightarrow> Inl OtherError
      | Response status content \<Rightarrow>
          if status \<noteq> 200 then Inl RuntimeError
          else (case content of
                  None \<Rightarrow> Inl OtherError
                | Some raw \<Rightarrow>
                    (let response = lower (strip raw)
                     in if response = ''genuine'' \<or> response = ''spam''
                        then Inr response else Inl AssertionError)))"

text \<open>
  What a call does to the outside is kept in a list of events: a request posted with its
  prompt (the three values put into \<^verbatim>\<open>PROMPT_TEMPLATE\<close>), and a sleep of the retry delay.
\<close>

datatype 'd event = Post "string \<times> string \<times> string" | Sleep 'd

text \<open>
  The loop \<^verbatim>\<open>while True\<close> of \<^verbatim>\<open>call_openai_async\<close>. \<open>server n\<close> is the outcome of attempt
  number \<open>n\<close> of this call. Every exception is caught, followed by a sleep and the next
  attempt; the loop has no bound, so the function is partial: \<open>None\<close> is a call that never
  returns.
\<close>

partial_function (option) call_openai_async ::
  "'d \<Rightarrow> (nat \<Rightarrow> attempt) \<Rightarrow> string \<times> string \<times> string \<Rightarrow> nat \<Rightarrow> 'd event list
     \<Rightarrow> (string \<times> 'd event list) option" where
  "call_openai_async retry_delay server prompt n log =
     (case request (server n) of
        Inr response \<Rightarrow> Some (response, log @ [Post prompt])
      | Inl e \<Rightarrow>
          call_openai_async retry_delay server prompt (n + 1)
            (log @ [Post prompt, Sleep retry_delay]))"

declare call_openai_async.simps [code]

text \<open>
  \<^verbatim>\<open>sub in s\<close> for strings.
\<close>

fun contains :: "string \<Rightarrow> string \<Rightarrow> bool" where
  "contains sub [] = (sub = [])"
| "contains sub (c # cs) = (startswith (c # cs) sub \<or> contains sub cs)"

text \<open>
  \<^verbatim>\<open>classify_translation_async\<close>. The state is the counter of the semaphore and the list of
  events. The coroutines that \<^verbatim>\<open>asyncio.gather\<close> runs share nothing but the semaphore, so
  they are run here one after the other, in the order of the arguments. \<^verbatim>\<open>async with
  semaphore\<close> takes one unit of the counter and gives it back at the end; on a counter that
  is zero it waits for a release that no one makes, and the call never returns.
\<close>

definition classify_translation_async ::
  "'d \<Rightarrow> (nat \<Rightarrow> attempt) \<Rightarrow> nat \<times> 'd event list \<Rightarrow> string \<Rightarrow> string \<Rightarrow> string
     \<Rightarrow> (string \<times> nat \<times> 'd event list) option" where
  "classify_translation_async retry_delay server st msgid msgstr lang =
     (case st of
        (semaphore, log) \<Rightarrow>
          if semaphore = 0 then None
          else (case call_openai_async retry_delay server (msgid, msgstr, lang) 0 log of
                  None \<Rightarrow> None
                | Some (response, log') \<Rightarrow>
                    Some (if contains ''genuine'' response then ''Genuine'' else ''Spam'',
                          (semaphore - 1 + 1, log'))))"

text \<open>
  The inner function \<^verbatim>\<open>_check\<close> of \<^verbatim>\<open>scan_diff_async\<close>.
\<close>

definition check ::
  "'d \<Rightarrow> (nat \<Rightarrow> attempt) \<Rightarrow> nat \<times> 'd event list \<Rightarrow> string \<Rightarrow> string \<Rightarrow> string
     \<Rightarrow> (change option \<times> nat \<times> 'd event list) option" where
  "check retry_delay server st current_locale msgid msgstr =
     (case classify_translation_async retry_delay server st msgid msgstr current_locale of
        None \<Rightarrow> None
      | Some (classification, st') \<Rightarrow>
          Some (if classification = ''Spam'' then Some (current_locale, msgid, msgstr) else None,
                st'))"

text \<open>
  \<^verbatim>\<open>asyncio.gather\<close> over the changed entries: one result for each, in their order.
  \<open>servers j\<close> gives the outcomes of the attempts made for entry number \<open>j\<close>.
\<close>

fun gather ::
  "'d \<Rightarrow> (nat \<Rightarrow> nat \<Rightarrow> attempt) \<Rightarrow> nat \<Rightarrow> change list \<Rightarrow> nat \<times> 'd event list
     \<Rightarrow> (change option list \<times> nat \<times> 'd event list) option" where
  "gather retry_delay servers j [] st = Some ([], st)"
| "gather retry_delay servers j ((loc, mid, mst) # rest) st =
     (case check retry_delay (servers j) st loc mid mst of
        None \<Rightarrow> None
      | Some (r, st') \<Rightarrow>
          (case gather retry_delay servers (j + 1) rest st' of
             None \<Rightarrow> None
           | Some (results, st'') \<Rightarrow> Some (r # results, st'')))"

text \<open>
  The loop that fills \<^verbatim>\<open>by_locale\<close> with \<^verbatim>\<open>setdefault\<close> and \<^verbatim>\<open>append\<close>.
\<close>

fun by_locale_loop ::
  "change option list \<Rightarrow> (string \<rightharpoonup> (string \<times> string) list)
     \<Rightarrow> (string \<rightharpoonup> (string \<times> string) list)" where
  "by_locale_loop [] by_locale = by_locale"
| "by_locale_loop (None # rest) by_locale = by_locale_loop rest by_locale"
| "by_locale_loop (Some (current_locale, entry) # rest) by_locale =
     by_locale_loop rest
       (by_locale(current_locale \<mapsto>
          (case by_locale current_locale of None \<Rightarrow> [] | Some es \<Rightarrow> es) @ [entry]))"

text \<open>
  \<^verbatim>\<open>scan_diff_async\<close>: \<open>None\<close> when it never returns, an error when the parser raises,
  else the dictionary of the entries found to be spam.
\<close>

definition scan_diff_async ::
  "'d \<Rightarrow> (string \<Rightarrow> error + patched_file list) \<Rightarrow> (nat \<Rightarrow> nat \<Rightarrow> attempt)
     \<Rightarrow> nat \<times> 'd event list \<Rightarrow> string
     \<Rightarrow> (error + (string \<rightharpoonup> (string \<times> string) list) \<times> nat \<times> 'd event list) option" where
  "scan_diff_async retry_delay PatchSet servers st diff_text =
     (case parse_po_diff PatchSet diff_text of
        Inl e \<Rightarrow> Some (Inl e)
      | Inr changed \<Rightarrow>
          if changed = [] then Some (Inr (Map.empty, st))
          else (case gather retry_delay servers 0 changed st of
                  None \<Rightarrow> None
                | Some (results, st') \<Rightarrow> Some (Inr (by_locale_loop results Map.empty, st'))))"

section \<open>An unrecognised answer is a failure\<close>

lemma request_Inr:
  "request a = Inr r \<Longrightarrow>
     \<exists>raw. a = Response 200 (Some raw) \<and> lower (strip raw) = r \<and> (r = ''genuine'' \<or> r = ''spam'')"
  by (cases a) (auto simp: request_def Let_def split: if_splits option.splits)

lemma request_unrecognized:
  "lower (strip raw) \<noteq> ''genuine'' \<Longrightarrow> lower (strip raw) \<noteq> ''spam'' \<Longrightarrow>
     request (Response 200 (Some raw)) = Inl AssertionError"
  by (simp add: request_def Let_def)

lemma call_openai_async_retry:
  "request (server n) = Inl e \<Longrightarrow>
     call_openai_async retry_delay server prompt n log =
     call_openai_async retry_delay server prompt (n + 1) (log @ [Post prompt, Sleep retry_delay])"
  by (subst call_openai_async.simps) simp

lemma call_openai_async_return:
  "request (server n) = Inr r \<Longrightarrow>
     call_openai_async retry_delay server prompt n log = Some (r, log @ [Post prompt])"
  by (subst call_openai_async.simps) simp

lemma call_openai_async_result:
  assumes "call_openai_async retry_delay server prompt n log = Some y"
  shows "\<exists>m raw. n \<le> m \<and> server m = Response 200 (Some raw) \<and> lower (strip raw) = fst y
        \<and> (fst y = ''genuine'' \<or> fst y = ''spam'')"
proof -
  let ?P = "\<lambda>(d :: 'd) (server :: nat \<Rightarrow> attempt) (prompt :: string \<times> string \<times> string)
      (n :: nat) (log :: 'd event list) (y :: string \<times> 'd event list).
      \<exists>m raw. n \<le> m \<and> server m = Response 200 (Some raw) \<and> lower (strip raw) = fst y
        \<and> (fst y = ''genuine'' \<or> fst y = ''spam'')"
  have "?P retry_delay server prompt n log y"
  proof (rule call_openai_async.raw_induct [where P = ?P, OF _ assms])
    fix call :: "'d \<Rightarrow> (nat \<Rightarrow> attempt) \<Rightarrow> string \<times> string \<times> string \<Rightarrow> nat \<Rightarrow> 'd event list
        \<Rightarrow> (string \<times> 'd event list) option"
      and d :: 'd and server prompt n log y
    assume IH: "\<And>d server prompt n log y. call d server prompt n log = Some y \<Longrightarrow>
        ?P d server prompt n log y"
      and eq: "(case request (server n) of
                  Inl e \<Rightarrow> call d server prompt (n + 1) (log @ [Post prompt, Sleep d])
                | Inr response \<Rightarrow> Some (response, log @ [Post prompt])) = Some y"
    show "?P d server prompt n log y"
    proof (cases "request (server n)")
      case (Inr r)
      with eq have "fst y = r" by auto
      with request_Inr [OF Inr] have "n \<le> n \<and> (\<exists>raw. server n = Response 200 (Some raw)
          \<and> lower (strip raw) = fst y \<and> (fst y = ''genuine'' \<or> fst y = ''spam''))"
        by auto
      then show ?thesis by blast
    next
      case (Inl e)
      with eq have "call d server prompt (n + 1) (log @ [Post prompt, Sleep d]) = Some y"
        by simp
      from IH [OF this] obtain m raw where
        "n + 1 \<le> m" "server m = Response 200 (Some raw)" "lower (strip raw) = fst y"
        "fst y = ''genuine'' \<or> fst y = ''spam''" by blast
      then have "n \<le> m \<and> server m = Response 200 (Some raw) \<and> lower (strip raw) = fst y
        \<and> (fst y = ''genuine'' \<or> fst y = ''spam'')" by simp
      then show ?thesis by blast
    qed
  qed
  then show ?thesis .
qed

lemma contains_tokens:
  "contains ''genuine'' ''genuine''" "\<not> contains ''genuine'' ''spam''"
  by code_simp+

lemma call_openai_async_eventually:
  assumes "\<And>k. n \<le> k \<Longrightarrow> k < N \<Longrightarrow> \<exists>e. request (server k) = Inl e"
    and "n \<le> N" and "request (server N) = Inr r"
  shows "call_openai_async retry_delay server prompt n log =
     Some (r, log @ concat (replicate (N - n) [Post prompt, Sleep retry_delay]) @ [Post prompt])"
  using assms
proof (induction "N - n" arbitrary: n log)
  case 0
  then have "n = N" by simp
  with "0.prems"(3) show ?case by (simp add: call_openai_async_return)
next
  case (Suc d)
  then have lt: "n < N" by simp
  with Suc.prems(1) [of n] obtain e where e: "request (server n) = Inl e" by auto
  from Suc.hyps(2) have d: "d = N - (n + 1)" by simp
  have "call_openai_async retry_delay server prompt (n + 1)
          (log @ [Post prompt, Sleep retry_delay]) =
        Some (r, (log @ [Post prompt, Sleep retry_delay])
                 @ concat (replicate (N - (n + 1)) [Post prompt, Sleep retry_delay])
                 @ [Post prompt])"
    using Suc.prems lt by (intro Suc.hyps(1) [OF d]) auto
  moreover from lt have "N - n = Suc (N - (n + 1))" by simp
  ultimately show ?case
    by (simp add: call_openai_async_retry [of server n, OF e])
qed

text \<open>
  \<open>eventually_answers server N\<close>: the attempts 0 to \<open>N - 1\<close> fail and attempt \<open>N\<close>
  succeeds.
\<close>

definition eventually_answers :: "(nat \<Rightarrow> attempt) \<Rightarrow> nat \<Rightarrow> bool" where
  "eventually_answers server N =
     ((\<forall>k < N. \<exists>e. request (server k) = Inl e) \<and> (\<exists>r. request (server N) = Inr r))"

lemma request_recognized:
  "lower (strip raw) = ''genuine'' \<or> lower (strip raw) = ''spam'' \<Longrightarrow>
     request (Response 200 (Some raw)) = Inr (lower (strip raw))"
  by (auto simp: request_def Let_def)

lemma call_openai_async_never:
  assumes "\<And>k. n \<le> k \<Longrightarrow> \<exists>e. request (server k) = Inl e"
  shows "call_openai_async retry_delay server prompt n log = None"
proof (cases "call_openai_async retry_delay server prompt n log")
  case None
  then show ?thesis .
next
  case (Some y)
  from call_openai_async_result [OF Some] obtain m raw where
    m: "n \<le> m" "server m = Response 200 (Some raw)" "lower (strip raw) = fst y"
      "fst y = ''genuine'' \<or> fst y = ''spam''" by blast
  then have "request (server m) = Inr (fst y)"
    using request_recognized [of raw] by auto
  with assms [OF m(1)] show ?thesis by auto
qed

lemma classify_eventually:
  assumes "eventually_answers server N" and "0 < semaphore"
  shows "classify_translation_async retry_delay server (semaphore, log) msgid msgstr lang =
           Some (if request (server N) = Inr ''genuine'' then ''Genuine'' else ''Spam'',
                 (semaphore,
                  log @ concat (replicate N [Post (msgid, msgstr, lang), Sleep retry_delay])
                      @ [Post (msgid, msgstr, lang)]))"
proof -
  from assms(1) obtain r where r: "request (server N) = Inr r"
    and f: "\<And>k. k < N \<Longrightarrow> \<exists>e. request (server k) = Inl e"
    by (auto simp: eventually_answers_def)
  have c: "call_openai_async retry_delay server (msgid, msgstr, lang) 0 log =
      Some (r, log @ concat (replicate (N - 0) [Post (msgid, msgstr, lang), Sleep retry_delay])
                   @ [Post (msgid, msgstr, lang)])"
    by (rule call_openai_async_eventually) (auto simp: f r)
  from request_Inr [OF r] have t: "r = ''genuine'' \<or> r = ''spam''" by auto
  have v: "(if contains ''genuine'' r then ''Genuine'' else ''Spam'') =
      (if r = ''genuine'' then ''Genuine'' else ''Spam'')"
    using t contains_tokens by auto
  show ?thesis
    using assms(2) c v r by (simp add: classify_translation_async_def)
qed

text \<open>
  Claim C3. An answer whose text, stripped and lowered, is neither \<^verbatim>\<open>genuine\<close> nor
  \<^verbatim>\<open>spam\<close> makes the attempt fail with \<^verbatim>\<open>AssertionError\<close>, and the call goes on with a
  sleep of the retry delay and the next attempt: when the next attempt is answered with a
  token, the call returns that token after exactly one request, one sleep and one request;
  when the attempts up to number \<open>N\<close> fail and attempt \<open>N\<close> is answered, it returns after
  \<open>N - n\<close> rounds of request and sleep and one more request; when no later attempt is
  answered with a token, the call never returns, so no verdict is made up. A verdict comes
  only from an answer whose text, stripped and lowered, is one of the two tokens,
  \<^verbatim>\<open>Genuine\<close> from \<^verbatim>\<open>genuine\<close> and \<^verbatim>\<open>Spam\<close> from \<^verbatim>\<open>spam\<close>; and with a free unit of the
  semaphore, a server that answers at attempt \<open>M\<close> after \<open>M\<close> failures does give that
  verdict.
\<close>

theorem unrecognized_payload_retried:
  "(lower (strip raw) \<noteq> ''genuine'' \<and> lower (strip raw) \<noteq> ''spam''
      \<and> server n = Response 200 (Some raw) \<longrightarrow>
        request (server n) = Inl AssertionError
      \<and> call_openai_async retry_delay server prompt n log =
          call_openai_async retry_delay server prompt (n + 1)
            (log @ [Post prompt, Sleep retry_delay])
      \<and> (\<forall>r. request (server (n + 1)) = Inr r \<longrightarrow>
            call_openai_async retry_delay server prompt n log =
              Some (r, log @ [Post prompt, Sleep retry_delay, Post prompt]))
      \<and> (\<forall>N r. n < N \<and> (\<forall>k. n < k \<and> k < N \<longrightarrow> (\<exists>e. request (server k) = Inl e))
                 \<and> request (server N) = Inr r \<longrightarrow>
            call_openai_async retry_delay server prompt n log =
              Some (r, log @ concat (replicate (N - n) [Post prompt, Sleep retry_delay])
                           @ [Post prompt]))
      \<and> ((\<forall>k. n < k \<longrightarrow> (\<exists>e. request (server k) = Inl e)) \<longrightarrow>
            call_openai_async retry_delay server prompt n log = None))
   \<and> (classify_translation_async retry_delay server st msgid msgstr lang = Some (verdict, st') \<longrightarrow>
        (\<exists>m raw. server m = Response 200 (Some raw)
           \<and> (verdict = ''Genuine'' \<and> lower (strip raw) = ''genuine''
              \<or> verdict = ''Spam'' \<and> lower (strip raw) = ''spam'')))
   \<and> (0 < semaphore \<and> eventually_answers server M \<longrightarrow>
        classify_translation_async retry_delay server (semaphore, log) msgid msgstr lang =
          Some (if request (server M) = Inr ''genuine'' then ''Genuine'' else ''Spam'',
                (semaphore,
                 log @ concat (replicate M [Post (msgid, msgstr, lang), Sleep retry_delay])
                     @ [Post (msgid, msgstr, lang)])))"
proof (intro conjI impI allI)
  assume a: "lower (strip raw) \<noteq> ''genuine'' \<and> lower (strip raw) \<noteq> ''spam''
      \<and> server n = Response 200 (Some raw)"
  then show r: "request (server n) = Inl AssertionError"
    by (simp add: request_unrecognized)
  show "call_openai_async retry_delay server prompt n log =
          call_openai_async retry_delay server prompt (n + 1)
            (log @ [Post prompt, Sleep retry_delay])"
    by (rule call_openai_async_retry [of server n, OF r])
next
  fix r
  assume a: "lower (strip raw) \<noteq> ''genuine'' \<and> lower (strip raw) \<noteq> ''spam''
      \<and> server n = Response 200 (Some raw)"
    and s: "request (server (n + 1)) = Inr r"
  from a have f: "request (server n) = Inl AssertionError"
    by (simp add: request_unrecognized)
  show "call_openai_async retry_delay server prompt n log =
              Some (r, log @ [Post prompt, Sleep retry_delay, Post prompt])"
    unfolding call_openai_async_retry [of server n, OF f]
      call_openai_async_return [of server "n + 1", OF s]
    by simp
next
  fix N r
  assume a: "lower (strip raw) \<noteq> ''genuine'' \<and> lower (strip raw) \<noteq> ''spam''
      \<and> server n = Response 200 (Some raw)"
    and b: "n < N \<and> (\<forall>k. n < k \<and> k < N \<longrightarrow> (\<exists>e. request (server k) = Inl e))
                 \<and> request (server N) = Inr r"
  from a have f: "request (server n) = Inl AssertionError"
    by (simp add: request_unrecognized)
  have "\<And>k. n \<le> k \<Longrightarrow> k < N \<Longrightarrow> \<exists>e. request (server k) = Inl e"
  proof -
    fix k assume "n \<le> k" "k < N"
    then show "\<exists>e. request (server k) = Inl e"
      using f b by (cases "k = n") auto
  qed
  moreover from b have "n \<le> N" by simp
  moreover from b have "request (server N) = Inr r" by simp
  ultimately show "call_openai_async retry_delay server prompt n log =
              Some (r, log @ concat (replicate (N - n) [Post prompt, Sleep retry_delay])
                           @ [Post prompt])"
    by (rule call_openai_async_eventually)
next
  assume a: "lower (strip raw) \<noteq> ''genuine'' \<and> lower (strip raw) \<noteq> ''spam''
      \<and> server n = Response 200 (Some raw)"
    and b: "\<forall>k. n < k \<longrightarrow> (\<exists>e. request (server k) = Inl e)"
  from a have f: "request (server n) = Inl AssertionError"
    by (simp add: request_unrecognized)
  have "\<And>k. n \<le> k \<Longrightarrow> \<exists>e. request (server k) = Inl e"
  proof -
    fix k assume "n \<le> k"
    then show "\<exists>e. request (server k) = Inl e"
      using f b by (cases "k = n") auto
  qed
  then show "call_openai_async retry_delay server prompt n log = None"
    by (rule call_openai_async_never)
next
  assume c: "classify_translation_async retry_delay server st msgid msgstr lang = Some (verdict, st')"
  obtain semaphore log where st: "st = (semaphore, log)" by (cases st)
  from c st obtain response log' where
    r: "call_openai_async retry_delay server (msgid, msgstr, lang) 0 log = Some (response, log')"
    and v: "verdict = (if contains ''genuine'' response then ''Genuine'' else ''Spam'')"
    by (auto simp: classify_translation_async_def split: if_splits option.splits)
  from call_openai_async_result [OF r] obtain m raw where
    m: "server m = Response 200 (Some raw)" "lower (strip raw) = response"
      "response = ''genuine'' \<or> response = ''spam''" by auto
  from m(3) v contains_tokens have
    "verdict = ''Genuine'' \<and> response = ''genuine'' \<or> verdict = ''Spam'' \<and> response = ''spam''"
    by auto
  with m(1,2) show "\<exists>m raw. server m = Response 200 (Some raw)
           \<and> (verdict = ''Genuine'' \<and> lower (strip raw) = ''genuine''
              \<or> verdict = ''Spam'' \<and> lower (strip raw) = ''spam'')"
    by blast
next
  assume "0 < semaphore \<and> eventually_answers server M"
  then show "classify_translation_async retry_delay server (semaphore, log) msgid msgstr lang =
          Some (if request (server M) = Inr ''genuine'' then ''Genuine'' else ''Spam'',
                (semaphore,
                 log @ concat (replicate M [Post (msgid, msgstr, lang), Sleep retry_delay])
                     @ [Post (msgid, msgstr, lang)]))"
    by (simp add: classify_eventually)
qed

text \<open>
  Three servers. The first answers \<^verbatim>\<open>Maybe\<close>, then with status 503, then \<^verbatim>\<open>SPAM\<close> with
  white space around it; the second answers \<^verbatim>\<open>Maybe\<close> and from then on \<^verbatim>\<open>Genuine\<close>; the
  third answers \<^verbatim>\<open>Maybe\<close> for ever.
\<close>

definition flaky :: "nat \<Rightarrow> attempt" where
  "flaky n = (if n = 0 then Response 200 (Some ''Maybe'')
              else if n = 1 then Response 503 None
              else Response 200 (Some ('' SPAM'' @ [newline])))"

definition recovers :: "nat \<Rightarrow> attempt" where
  "recovers n = (if n = 0 then Response 200 (Some ''Maybe'')
                 else Response 200 (Some ''Genuine''))"

definition stubborn :: "nat \<Rightarrow> attempt" where
  "stubborn n = Response 200 (Some ''Maybe'')"

lemma server_facts:
  "lower (strip ''Maybe'') \<noteq> ''genuine'' \<and> lower (strip ''Maybe'') \<noteq> ''spam''"
  "flaky 0 = Response 200 (Some ''Maybe'')"
  "recovers 0 = Response 200 (Some ''Maybe'')"
  "stubborn 0 = Response 200 (Some ''Maybe'')"
  "request (flaky 0) = Inl AssertionError"
  "request (flaky 1) = Inl RuntimeError"
  "request (flaky 2) = Inr ''spam''"
  "request (recovers (0 + 1)) = Inr ''genuine''"
  "request (Response 200 (Some ''Maybe'')) = Inl AssertionError"
  by code_simp+

theorem unrecognized_payload_retried_witness:
  "request (flaky 0) = Inl AssertionError
   \<and> call_openai_async (2::nat) recovers (''Send'', ''Buy now'', ''de_DE'') 0 [] =
       Some (''genuine'', [Post (''Send'', ''Buy now'', ''de_DE''), Sleep 2,
                           Post (''Send'', ''Buy now'', ''de_DE'')])
   \<and> call_openai_async (2::nat) flaky (''Send'', ''Buy now'', ''de_DE'') 0 [] =
       Some (''spam'', [Post (''Send'', ''Buy now'', ''de_DE''), Sleep 2,
                        Post (''Send'', ''Buy now'', ''de_DE''), Sleep 2,
                        Post (''Send'', ''Buy now'', ''de_DE'')])
   \<and> call_openai_async (2::nat) stubborn (''Send'', ''Buy now'', ''de_DE'') 0 [] = None
   \<and> classify_translation_async (2::nat) flaky (1, []) ''Send'' ''Buy now'' ''de_DE'' =
       Some (''Spam'', (1, [Post (''Send'', ''Buy now'', ''de_DE''), Sleep 2,
                            Post (''Send'', ''Buy now'', ''de_DE''), Sleep 2,
                            Post (''Send'', ''Buy now'', ''de_DE'')]))
   \<and> (\<exists>m raw. flaky m = Response 200 (Some raw) \<and> lower (strip raw) = ''spam'')"
proof -
  let ?p = "(''Send'', ''Buy now'', ''de_DE'')"
  note t = unrecognized_payload_retried [where raw = "''Maybe''" and retry_delay = "2::nat"
      and prompt = ?p and n = 0 and log = "[]" and msgid = "''Send''" and msgstr = "''Buy now''"
      and lang = "''de_DE''" and semaphore = 1 and M = 2 and verdict = "''Spam''"
      and st = "(1, [])"
      and st' = "(1, [Post ?p, Sleep 2, Post ?p, Sleep 2, Post ?p])"]
  have r2: "replicate (2 - 0) x = [x, x]" "replicate 2 x = [x, x]" for x :: "'a"
    by (simp_all add: numeral_2_eq_2)
  have h1: "lower (strip ''Maybe'') \<noteq> ''genuine'' \<and> lower (strip ''Maybe'') \<noteq> ''spam''
      \<and> recovers 0 = Response 200 (Some ''Maybe'')"
    using server_facts(1,3) by simp
  note t1 = t [where server = recovers, THEN conjunct1, THEN mp, OF h1]
  from t1 [THEN conjunct2, THEN conjunct2, THEN conjunct1, THEN spec, THEN mp,
      OF server_facts(8)]
  have a: "call_openai_async (2::nat) recovers ?p 0 [] =
      Some (''genuine'', [Post ?p, Sleep 2, Post ?p])"
    by simp
  have h2: "lower (strip ''Maybe'') \<noteq> ''genuine'' \<and> lower (strip ''Maybe'') \<noteq> ''spam''
      \<and> flaky 0 = Response 200 (Some ''Maybe'')"
    using server_facts(1,2) by simp
  note t2 = t [where server = flaky, THEN conjunct1, THEN mp, OF h2]
  have f1: "\<forall>k. 0 < k \<and> k < 2 \<longrightarrow> (\<exists>e. request (flaky k) = Inl e)"
  proof (intro allI impI)
    fix k :: nat assume "0 < k \<and> k < 2"
    then have "k = 1" by simp
    with server_facts(6) show "\<exists>e. request (flaky k) = Inl e" by simp
  qed
  have pre: "(0::nat) < 2 \<and> (\<forall>k. 0 < k \<and> k < 2 \<longrightarrow> (\<exists>e. request (flaky k) = Inl e))
      \<and> request (flaky 2) = Inr ''spam''"
    using f1 server_facts(7) by simp
  from t2 [THEN conjunct2, THEN conjunct2, THEN conjunct2, THEN conjunct1, THEN spec,
      THEN spec, THEN mp, OF pre]
  have b: "call_openai_async (2::nat) flaky ?p 0 [] =
      Some (''spam'', [Post ?p, Sleep 2, Post ?p, Sleep 2, Post ?p])"
    by (simp add: r2)
  have h3: "lower (strip ''Maybe'') \<noteq> ''genuine'' \<and> lower (strip ''Maybe'') \<noteq> ''spam''
      \<and> stubborn 0 = Response 200 (Some ''Maybe'')"
    using server_facts(1,4) by simp
  have f3: "\<forall>k. 0 < k \<longrightarrow> (\<exists>e. request (stubborn k) = Inl e)"
    using server_facts(9) by (simp add: stubborn_def)
  note t3 = t [where server = stubborn, THEN conjunct1, THEN mp, OF h3]
  from t3 [THEN conjunct2, THEN conjunct2, THEN conjunct2, THEN conjunct2, THEN mp, OF f3]
  have c: "call_openai_async (2::nat) stubborn ?p 0 [] = None" .
  have ev: "eventually_answers flaky 2"
    unfolding eventually_answers_def
  proof (intro conjI allI impI)
    fix k :: nat assume "k < 2"
    then have "k = 0 \<or> k = 1" by auto
    with server_facts(5,6) show "\<exists>e. request (flaky k) = Inl e" by auto
  next
    from server_facts(7) show "\<exists>r. request (flaky 2) = Inr r" by blast
  qed
  have pe: "(0::nat) < 1 \<and> eventually_answers flaky 2" using ev by simp
  from t [where server = flaky, THEN conjunct2, THEN conjunct2, THEN mp, OF pe]
  have d: "classify_translation_async (2::nat) flaky (1, []) ''Send'' ''Buy now'' ''de_DE'' =
       Some (''Spam'', (1, [Post ?p, Sleep 2, Post ?p, Sleep 2, Post ?p]))"
    by (simp add: r2 server_facts(7))
  from t [where server = flaky, THEN conjunct2, THEN conjunct1, THEN mp, OF d]
  have e: "\<exists>m raw. flaky m = Response 200 (Some raw) \<and> lower (strip raw) = ''spam''"
    by auto
  from server_facts(5) a b c d e show ?thesis by blast
qed


section \<open>Every entry gets its verdict\<close>

lemma count_sleeps:
  "count_list (concat (replicate k [Post prompt, Sleep d])) (Sleep d) = k"
  by (induction k) auto

lemma check_eventually:
  assumes "eventually_answers server N" and "0 < semaphore"
  shows "\<exists>log'. check retry_delay server (semaphore, log) loc mid mst =
           Some (if request (server N) = Inr ''spam'' then Some (loc, mid, mst) else None,
                 (semaphore, log'))
         \<and> count_list log' (Sleep retry_delay) = count_list log (Sleep retry_delay) + N"
proof -
  from assms(1) obtain r where r: "request (server N) = Inr r"
    and f: "\<And>k. k < N \<Longrightarrow> \<exists>e. request (server k) = Inl e"
    by (auto simp: eventually_answers_def)
  let ?log' = "log @ concat (replicate (N - 0) [Post (mid, mst, loc), Sleep retry_delay])
                 @ [Post (mid, mst, loc)]"
  have c: "call_openai_async retry_delay server (mid, mst, loc) 0 log = Some (r, ?log')"
    by (rule call_openai_async_eventually) (auto simp: f r)
  from request_Inr [OF r] have t: "r = ''genuine'' \<or> r = ''spam''" by auto
  have v: "(if contains ''genuine'' r then ''Genuine'' else ''Spam'') = ''Spam'' \<longleftrightarrow> r = ''spam''"
    using t contains_tokens by auto
  have "check retry_delay server (semaphore, log) loc mid mst =
           Some (if r = ''spam'' then Some (loc, mid, mst) else None, (semaphore, ?log'))"
    using assms(2) c v by (simp add: check_def classify_translation_async_def)
  moreover have "count_list ?log' (Sleep retry_delay) = count_list log (Sleep retry_delay) + N"
    by (simp add: count_sleeps)
  ultimately show ?thesis using r by auto
qed

lemma gather_eventually:
  assumes "0 < semaphore"
    and "\<And>i. i < length changed \<Longrightarrow> eventually_answers (servers (j + i)) (N (j + i))"
  shows "\<exists>results log'.
           gather retry_delay servers j changed (semaphore, log) = Some (results, (semaphore, log'))
         \<and> length results = length changed
         \<and> (\<forall>i < length changed.
              results ! i = (if request (servers (j + i) (N (j + i))) = Inr ''spam''
                             then Some (changed ! i) else None))
         \<and> count_list log' (Sleep retry_delay) =
             count_list log (Sleep retry_delay) + sum_list (map N [j ..< j + length changed])"
  using assms(2)
proof (induction changed arbitrary: j log)
  case Nil
  then show ?case by simp
next
  case (Cons c changed)
  obtain loc mid mst where c: "c = (loc, mid, mst)" by (cases c)
  from Cons.prems [of 0] have "eventually_answers (servers j) (N j)" by simp
  from check_eventually [OF this assms(1), of retry_delay log loc mid mst] obtain log1 where
    k: "check retry_delay (servers j) (semaphore, log) loc mid mst =
           Some (if request (servers j (N j)) = Inr ''spam'' then Some (loc, mid, mst) else None,
                 (semaphore, log1))"
    and n1: "count_list log1 (Sleep retry_delay) = count_list log (Sleep retry_delay) + N j"
    by blast
  have "\<And>i. i < length changed \<Longrightarrow> eventually_answers (servers (j + 1 + i)) (N (j + 1 + i))"
    using Cons.prems [of "Suc i" for i] by simp
  from Cons.IH [OF this, of log1] obtain results log' where
    g: "gather retry_delay servers (j + 1) changed (semaphore, log1)
          = Some (results, (semaphore, log'))"
    and l: "length results = length changed"
    and r: "\<forall>i < length changed.
              results ! i = (if request (servers (j + 1 + i) (N (j + 1 + i))) = Inr ''spam''
                             then Some (changed ! i) else None)"
    and n2: "count_list log' (Sleep retry_delay) =
             count_list log1 (Sleep retry_delay) + sum_list (map N [j + 1 ..< j + 1 + length changed])"
    by blast
  let ?r = "if request (servers j (N j)) = Inr ''spam'' then Some (loc, mid, mst) else None"
  have "gather retry_delay servers j (c # changed) (semaphore, log)
          = Some (?r # results, (semaphore, log'))"
    using c k g by simp
  moreover have "length (?r # results) = length (c # changed)" using l by simp
  moreover have "\<forall>i < length (c # changed).
              (?r # results) ! i = (if request (servers (j + i) (N (j + i))) = Inr ''spam''
                             then Some ((c # changed) ! i) else None)"
  proof (intro allI impI)
    fix i assume "i < length (c # changed)"
    then show "(?r # results) ! i = (if request (servers (j + i) (N (j + i))) = Inr ''spam''
                             then Some ((c # changed) ! i) else None)"
      using r c by (cases i) auto
  qed
  moreover have "[j ..< j + length (c # changed)] = j # [j + 1 ..< j + 1 + length changed]"
    by (simp add: upt_rec)
  then have "count_list log' (Sleep retry_delay) =
      count_list log (Sleep retry_delay) + sum_list (map N [j ..< j + length (c # changed)])"
    using n1 n2 by simp
  ultimately show ?case by blast
qed

text \<open>
  Claim C4. Let the concurrency limit be positive, and let the invocation of every entry
  fail on its first \<open>N j\<close> attempts and succeed on the next. Then the orchestration returns:
  \<^verbatim>\<open>gather\<close> gives exactly one result for each entry, in order, which is the entry itself
  when the answer is \<^verbatim>\<open>spam\<close> and \<^verbatim>\<open>None\<close> when it is \<^verbatim>\<open>genuine\<close>; every failed attempt
  is followed by one sleep of the retry delay, whatever the number of failures; and
  \<^verbatim>\<open>scan_diff_async\<close> returns the dictionary built from these results.
\<close>

theorem orchestration_returns_every_verdict:
  assumes "0 < concurrency"
    and "\<forall>j < length changed. eventually_answers (servers j) (N j)"
  shows "\<exists>results log'.
      gather retry_delay servers 0 changed (concurrency, log) = Some (results, (concurrency, log'))
    \<and> length results = length changed
    \<and> (\<forall>j < length changed.
          results ! j = (if request (servers j (N j)) = Inr ''spam''
                         then Some (changed ! j) else None))
    \<and> count_list log' (Sleep retry_delay) =
        count_list log (Sleep retry_delay) + sum_list (map N [0 ..< length changed])
    \<and> (parse_po_diff PatchSet diff_text = Inr changed \<longrightarrow>
         scan_diff_async retry_delay PatchSet servers (concurrency, log) diff_text =
           Some (Inr (by_locale_loop results Map.empty, (concurrency, log'))))"
proof -
  have "\<And>i. i < length changed \<Longrightarrow> eventually_answers (servers (0 + i)) (N (0 + i))"
    using assms(2) by simp
  from gather_eventually [where j = 0 and semaphore = concurrency and changed = changed
      and servers = servers and N = N and retry_delay = retry_delay and log = log,
      OF assms(1) this]
  obtain results log' where
    g: "gather retry_delay servers 0 changed (concurrency, log) = Some (results, (concurrency, log'))"
    and l: "length results = length changed"
    and r: "\<forall>i < length changed.
              results ! i = (if request (servers (0 + i) (N (0 + i))) = Inr ''spam''
                             then Some (changed ! i) else None)"
    and n: "count_list log' (Sleep retry_delay) =
             count_list log (Sleep retry_delay) + sum_list (map N [0 ..< 0 + length changed])"
    by blast
  have s: "parse_po_diff PatchSet diff_text = Inr changed \<longrightarrow>
         scan_diff_async retry_delay PatchSet servers (concurrency, log) diff_text =
           Some (Inr (by_locale_loop results Map.empty, (concurrency, log')))"
  proof
    assume p: "parse_po_diff PatchSet diff_text = Inr changed"
    show "scan_diff_async retry_delay PatchSet servers (concurrency, log) diff_text =
           Some (Inr (by_locale_loop results Map.empty, (concurrency, log')))"
    proof (cases "changed = []")
      case True
      with g have "results = []" "log' = log" by simp_all
      with p True show ?thesis by (simp add: scan_diff_async_def)
    next
      case False
      with p g show ?thesis by (simp add: scan_diff_async_def)
    qed
  qed
  from r have r': "\<forall>j < length changed.
          results ! j = (if request (servers j (N j)) = Inr ''spam''
                         then Some (changed ! j) else None)" by simp
  from n have n': "count_list log' (Sleep retry_delay) =
        count_list log (Sleep retry_delay) + sum_list (map N [0 ..< length changed])" by simp
  from g l r' n' s show ?thesis by blast
qed

text \<open>
  With a limit of zero no invocation is ever admitted.
\<close>

lemma semaphore_zero_blocks:
  "gather retry_delay servers j (c # changed) (0, log) = None"
  by (cases c) (simp add: check_def classify_translation_async_def)

text \<open>
  An instance: two entries; the first is answered after two failures with \<^verbatim>\<open>spam\<close>, the
  second at once with \<^verbatim>\<open>Genuine\<close>.
\<close>

definition two_changes :: "change list" where
  "two_changes = [(''de_DE'', ''Send'', ''Buy now''), (''de_DE'', ''Wallet'', ''Geldbeutel'')]"

definition two_servers :: "nat \<Rightarrow> nat \<Rightarrow> attempt" where
  "two_servers j = (if j = 0 then flaky else (\<lambda>n. Response 200 (Some ''Genuine'')))"

definition two_counts :: "nat \<Rightarrow> nat" where
  "two_counts j = (if j = 0 then 2 else 0)"

lemma two_servers_answer:
  "\<forall>j < length two_changes. eventually_answers (two_servers j) (two_counts j)"
proof (intro allI impI)
  fix j assume "j < length two_changes"
  then have "j = 0 \<or> j = 1" by (auto simp: two_changes_def)
  moreover have "request (flaky 0) = Inl AssertionError" "request (flaky 1) = Inl RuntimeError"
    "request (flaky 2) = Inr ''spam''" "request (Response 200 (Some ''Genuine'')) = Inr ''genuine''"
    by code_simp+
  ultimately show "eventually_answers (two_servers j) (two_counts j)"
    by (auto simp: eventually_answers_def two_servers_def two_counts_def less_Suc_eq
        numeral_2_eq_2)
qed

lemma two_changes_facts:
  "length two_changes = 2"
  "request (two_servers 0 (two_counts 0)) = Inr ''spam''"
  "request (two_servers 1 (two_counts 1)) \<noteq> Inr ''spam''"
  "two_changes ! 0 = (''de_DE'', ''Send'', ''Buy now'')"
  by code_simp+

theorem orchestration_returns_every_verdict_witness:
  "(0::nat) < 1
   \<and> request (two_servers 0 0) = Inl AssertionError
   \<and> request (two_servers 0 1) = Inl RuntimeError
   \<and> request (two_servers 0 2) = Inr ''spam''
   \<and> request (two_servers 1 0) = Inr ''genuine''
   \<and> (\<exists>results log'.
        gather (2::nat) two_servers 0 two_changes (1, []) = Some (results, (1, log'))
      \<and> length results = 2
      \<and> results ! 0 = Some (''de_DE'', ''Send'', ''Buy now'')
      \<and> results ! 1 = None)"
proof -
  have pos: "(0::nat) < 1" by simp
  from orchestration_returns_every_verdict [where concurrency = 1 and changed = two_changes
      and servers = two_servers and N = two_counts and retry_delay = "2::nat" and log = "[]"
      and PatchSet = "\<lambda>d. Inr []" and diff_text = "[]", OF pos two_servers_answer]
  obtain results log' where
    g: "gather (2::nat) two_servers 0 two_changes (1, []) = Some (results, (1, log'))"
    and l: "length results = length two_changes"
    and r: "\<forall>j < length two_changes.
          results ! j = (if request (two_servers j (two_counts j)) = Inr ''spam''
                         then Some (two_changes ! j) else None)"
    by blast
  from r two_changes_facts have "results ! 0 = Some (''de_DE'', ''Send'', ''Buy now'')"
    "results ! 1 = None" by auto
  moreover have "request (two_servers 0 0) = Inl AssertionError"
    "request (two_servers 0 1) = Inl RuntimeError"
    "request (two_servers 0 2) = Inr ''spam''"
    "request (two_servers 1 0) = Inr ''genuine''"
    by code_simp+
  ultimately show ?thesis using g l two_changes_facts(1) pos by auto
qed

end
